theory Spec2Isabelle
  imports Complex_Main
begin

section \<open>JavaScript values used by the mesh loader\<close>

text \<open>
  A JavaScript Number is modelled as a finite real or one of the three special values of
  IEEE 754 doubles. Finite results within the range of doubles are exact (rounding to 53
  bits is not modelled); a result whose magnitude reaches the overflow threshold of doubles
  becomes an infinity and one between the largest double and that threshold becomes the
  largest double, as in round-to-nearest. The model has a single zero, read as +0.
\<close>

datatype number = Fin real | PInf | NInf | NaN

definition MAX_VALUE :: real where
  "MAX_VALUE = 2 ^ 1024 - 2 ^ 971"

definition overflow_threshold :: real where
  "overflow_threshold = 2 ^ 1024 - 2 ^ 970"

definition to_number :: "real \<Rightarrow> number" where
  "to_number r =
     (if overflow_threshold \<le> r then PInf
      else if r \<le> - overflow_threshold then NInf
      else if MAX_VALUE < r then Fin MAX_VALUE
      else if r < - MAX_VALUE then Fin (- MAX_VALUE)
      else Fin r)"

fun num_neg :: "number \<Rightarrow> number" where
  "num_neg (Fin a) = Fin (- a)"
| "num_neg PInf = NInf"
| "num_neg NInf = PInf"
| "num_neg NaN = NaN"

fun num_add :: "number \<Rightarrow> number \<Rightarrow> number" where
  "num_add NaN _ = NaN"
| "num_add _ NaN = NaN"
| "num_add PInf NInf = NaN"
| "num_add NInf PInf = NaN"
| "num_add PInf _ = PInf"
| "num_add _ PInf = PInf"
| "num_add NInf _ = NInf"
| "num_add _ NInf = NInf"
| "num_add (Fin a) (Fin b) = to_number (a + b)"

definition num_sub :: "number \<Rightarrow> number \<Rightarrow> number" where
  "num_sub a b = num_add a (num_neg b)"

fun num_mul :: "number \<Rightarrow> number \<Rightarrow> number" where
  "num_mul NaN _ = NaN"
| "num_mul _ NaN = NaN"
| "num_mul (Fin a) (Fin b) = to_number (a * b)"
| "num_mul (Fin a) PInf = (if a = 0 then NaN else if 0 < a then PInf else NInf)"
| "num_mul (Fin a) NInf = (if a = 0 then NaN else if 0 < a then NInf else PInf)"
| "num_mul PInf (Fin b) = (if b = 0 then NaN else if 0 < b then PInf else NInf)"
| "num_mul NInf (Fin b) = (if b = 0 then NaN else if 0 < b then NInf else PInf)"
| "num_mul PInf PInf = PInf"
| "num_mul PInf NInf = NInf"
| "num_mul NInf PInf = NInf"
| "num_mul NInf NInf = PInf"

fun num_div :: "number \<Rightarrow> number \<Rightarrow> number" where
  "num_div NaN _ = NaN"
| "num_div _ NaN = NaN"
| "num_div (Fin a) (Fin b) =
     (if b = 0 then (if a = 0 then NaN else if 0 < a then PInf else NInf)
      else to_number (a / b))"
| "num_div (Fin a) PInf = Fin 0"
| "num_div (Fin a) NInf = Fin 0"
| "num_div PInf (Fin b) = (if 0 \<le> b then PInf else NInf)"
| "num_div NInf (Fin b) = (if 0 \<le> b then NInf else PInf)"
| "num_div PInf PInf = NaN"
| "num_div PInf NInf = NaN"
| "num_div NInf PInf = NaN"
| "num_div NInf NInf = NaN"

text \<open>The order of the non-NaN values, used by \<open>Math.min\<close> and \<open>Math.max\<close>.\<close>

fun num_le :: "number \<Rightarrow> number \<Rightarrow> bool" where
  "num_le NaN _ = False"
| "num_le _ NaN = False"
| "num_le NInf _ = True"
| "num_le _ PInf = True"
| "num_le (Fin a) (Fin b) = (a \<le> b)"
| "num_le PInf _ = False"
| "num_le _ NInf = False"

fun Math_min :: "number \<Rightarrow> number \<Rightarrow> number" where
  "Math_min NaN _ = NaN"
| "Math_min _ NaN = NaN"
| "Math_min a b = (if num_le a b then a else b)"

fun Math_max :: "number \<Rightarrow> number \<Rightarrow> number" where
  "Math_max NaN _ = NaN"
| "Math_max _ NaN = NaN"
| "Math_max a b = (if num_le a b then b else a)"

text \<open>\<open>Math.max(a, b, c)\<close>: NaN if an argument is NaN, the largest otherwise.\<close>

definition Math_max3 :: "number \<Rightarrow> number \<Rightarrow> number \<Rightarrow> number" where
  "Math_max3 a b c = Math_max (Math_max a b) c"

section \<open>JavaScript string functions used by the mesh loader\<close>

text \<open>
  Strings are lists of 8-bit characters. The white space of \<open>trim\<close> and of the regular
  expression \<open>\s\<close> is the ASCII part of JavaScript's: tab, line feed, vertical tab, form
  feed, carriage return and space.
\<close>

definition is_space :: "char \<Rightarrow> bool" where
  "is_space c = (of_char c \<in> {9 :: nat, 10, 11, 12, 13, 32})"

definition is_digit :: "char \<Rightarrow> bool" where
  "is_digit c = (48 \<le> (of_char c :: nat) \<and> (of_char c :: nat) \<le> 57)"

definition trim :: "string \<Rightarrow> string" where
  "trim s = rev (dropWhile is_space (rev (dropWhile is_space s)))"

definition startsWith :: "string \<Rightarrow> string \<Rightarrow> bool" where
  "startsWith s p = (take (length p) s = p)"

text \<open>\<open>s.split(c)\<close> for a separator of one character: never empty, \<open>''''\<close> gives \<open>['''']\<close>.\<close>

fun split_char :: "char \<Rightarrow> string \<Rightarrow> string list" where
  "split_char c [] = [[]]"
| "split_char c (x # xs) =
     (let r = split_char c xs in if x = c then [] # r else (x # hd r) # tl r)"

text \<open>
  \<open>s.split(/\s+/)\<close>: the pieces between maximal runs of white space. The flag says that
  the previous character was white space, so that a run separates once.
\<close>

fun split_ws_from :: "bool \<Rightarrow> string \<Rightarrow> string list" where
  "split_ws_from b [] = [[]]"
| "split_ws_from b (x # xs) =
     (if is_space x then (if b then split_ws_from True xs else [] # split_ws_from True xs)
      else (let r = split_ws_from False xs in (x # hd r) # tl r))"

definition split_ws :: "string \<Rightarrow> string list" where
  "split_ws s = split_ws_from False s"

text \<open>\<open>String(parts[i])\<close>: an index past the end reads \<open>undefined\<close>.\<close>

definition nth_string :: "string list \<Rightarrow> nat \<Rightarrow> string" where
  "nth_string parts i = (if i < length parts then parts ! i else ''undefined'')"

definition digits_value :: "nat \<Rightarrow> string \<Rightarrow> nat" where
  "digits_value radix ds = foldl (\<lambda>n d. radix * n + d) 0 (map (\<lambda>c. 
     (if is_digit c then of_char c - 48
      else if 97 \<le> (of_char c :: nat) then of_char c - 87 else of_char c - 55)) ds)"

definition is_hex_digit :: "char \<Rightarrow> bool" where
  "is_hex_digit c = (is_digit c \<or> (65 \<le> (of_char c :: nat) \<and> (of_char c :: nat) \<le> 70)
     \<or> (97 \<le> (of_char c :: nat) \<and> (of_char c :: nat) \<le> 102))"

text \<open>A leading sign: whether it is a minus, and the rest.\<close>

fun strip_sign :: "string \<Rightarrow> bool \<times> string" where
  "strip_sign [] = (False, [])"
| "strip_sign (c # cs) =
     (if c = CHR ''-'' then (True, cs) else if c = CHR ''+'' then (False, cs)
      else (False, c # cs))"

text \<open>
  \<open>parseInt(s)\<close> with no radix: leading white space and a sign are skipped, a prefix
  \<open>0x\<close> selects radix 16, and the longest run of digits is read; none gives NaN.
\<close>

definition parseInt :: "string \<Rightarrow> number" where
  "parseInt s =
     (let (neg, u) = strip_sign (dropWhile is_space s);
          hex = (take 2 u = ''0x'' \<or> take 2 u = ''0X'');
          ds = (if hex then takeWhile is_hex_digit (drop 2 u) else takeWhile is_digit u);
          v = real (digits_value (if hex then 16 else 10) ds)
      in if ds = [] then NaN else to_number (if neg then - v else v))"

text \<open>The exponent part that follows a mantissa, 0 when there is none.\<close>

definition exponent_of :: "string \<Rightarrow> int" where
  "exponent_of r =
     (if r \<noteq> [] \<and> (hd r = CHR ''e'' \<or> hd r = CHR ''E'') then
        (let (neg, u) = strip_sign (tl r); ds = takeWhile is_digit u
         in if ds = [] then 0
            else if neg then - int (digits_value 10 ds) else int (digits_value 10 ds))
      else 0)"

text \<open>
  \<open>parseFloat(s)\<close>: the longest prefix that is a decimal literal (sign, \<open>Infinity\<close>, or
  digits with an optional fraction and exponent); NaN when there is none.
\<close>

definition parseFloat :: "string \<Rightarrow> number" where
  "parseFloat s =
     (let (neg, u) = strip_sign (dropWhile is_space s) in
      if take 8 u = ''Infinity'' then (if neg then NInf else PInf)
      else
        (let ip = takeWhile is_digit u;
             r1 = dropWhile is_digit u;
             dot = (r1 \<noteq> [] \<and> hd r1 = CHR ''.'');
             fp = (if dot then takeWhile is_digit (tl r1) else []);
             r2 = (if dot then dropWhile is_digit (tl r1) else r1);
             m = real (digits_value 10 (ip @ fp)) / 10 ^ length fp;
             e = exponent_of r2;
             v = (if 0 \<le> e then m * 10 ^ nat e else m / 10 ^ nat (- e))
         in if ip = [] \<and> fp = [] then NaN else to_number (if neg then - v else v)))"

section \<open>Errors\<close>

text \<open>
  The program throws strings. \<open>TypeError\<close> is the exception the JavaScript engine
  raises itself on reading a property of \<open>null\<close> or destructuring \<open>undefined\<close>, and
  \<open>RangeError\<close> the one it raises when a recursion never ends (stack exhaustion).
\<close>

datatype error = Thrown string | TypeError | RangeError

definition UnsupportedFaceFormat :: error where
  "UnsupportedFaceFormat = Thrown ''Unsupported face format''"

section \<open>OBJLoader\<close>

text \<open>\<open>parseVertex\<close>: the three fields after \<open>v\<close>, each through \<open>parseFloat\<close>.\<close>

definition parseVertex :: "string \<Rightarrow> number list" where
  "parseVertex vertex_string =
     (let parts = split_ws vertex_string;
          x = parseFloat (nth_string parts 1);
          y = parseFloat (nth_string parts 2);
          z = parseFloat (nth_string parts 3)
      in [x, y, z])"

text \<open>\<open>triangulateFace\<close> is called with four indices only (the guard of \<open>parseFace\<close>).\<close>

definition triangulateFace :: "number list \<Rightarrow> number list" where
  "triangulateFace face = [face ! 0, face ! 1, face ! 2, face ! 0, face ! 2, face ! 3]"

definition parseFace :: "string \<Rightarrow> error + number list" where
  "parseFace face_string =
     (let parts = drop 1 (split_ws face_string);
          indices = map (\<lambda>part. num_sub (parseInt (hd (split_char CHR ''/'' part))) (Fin 1)) parts
      in if length indices = 3 then Inr indices
         else if length indices = 4 then Inr (triangulateFace indices)
         else Inl UnsupportedFaceFormat)"

record loader_state =
  vertices :: "number list list"
  indices :: "number list"
  minExtent :: "number list"
  maxExtent :: "number list"

definition initial_state :: loader_state where
  "initial_state =
     \<lparr>vertices = [], indices = [],
      minExtent = [Fin MAX_VALUE, Fin MAX_VALUE, Fin MAX_VALUE],
      maxExtent = [Fin (- MAX_VALUE), Fin (- MAX_VALUE), Fin (- MAX_VALUE)]\<rparr>"

text \<open>The loop over the lines of the file; a throw of \<open>parseFace\<close> ends it.\<close>

fun load_lines :: "string list \<Rightarrow> loader_state \<Rightarrow> error + loader_state" where
  "load_lines [] st = Inr st"
| "load_lines (l # ls) st =
     (let line = trim l in
      if startsWith line ''v '' then
        (let vertex = parseVertex line in
         load_lines ls
           (st\<lparr>vertices := vertices st @ [vertex],
               minExtent := map2 Math_min (minExtent st) vertex,
               maxExtent := map2 Math_max (maxExtent st) vertex\<rparr>))
      else if startsWith line ''f '' then
        (case parseFace line of
           Inl e \<Rightarrow> Inl e
         | Inr faceIndices \<Rightarrow> load_lines ls (st\<lparr>indices := indices st @ faceIndices\<rparr>))
      else load_lines ls st)"

definition extents :: "loader_state \<Rightarrow> number list" where
  "extents st = map2 num_sub (maxExtent st) (minExtent st)"

definition largest_extent :: "loader_state \<Rightarrow> number" where
  "largest_extent st = Math_max3 (extents st ! 0) (extents st ! 1) (extents st ! 2)"

definition scale_of :: "loader_state \<Rightarrow> number" where
  "scale_of st = num_div (Fin 2) (largest_extent st)"

definition offset_of :: "loader_state \<Rightarrow> number list" where
  "offset_of st =
     map2 (\<lambda>mx mn. num_div (num_neg (num_add mx mn)) (Fin 2)) (maxExtent st) (minExtent st)"

definition normalize :: "loader_state \<Rightarrow> number list list" where
  "normalize st =
     map (\<lambda>v. map2 (\<lambda>c off. num_mul (num_add c off) (scale_of st)) v (offset_of st))
       (vertices st)"

text \<open>\<open>load\<close>, from the contents of the file that \<open>loadExternalFile\<close> returned.\<close>

definition load :: "string \<Rightarrow> error + (number list \<times> number list)" where
  "load contents =
     (case load_lines (split_char CHR 0x0A contents) initial_state of
        Inl e \<Rightarrow> Inl e
      | Inr st \<Rightarrow> Inr (concat (normalize st), indices st))"


text \<open>Names for what the loader reads, used to state its properties.\<close>

definition lines_of :: "string \<Rightarrow> string list" where
  "lines_of contents = split_char CHR 0x0A contents"

definition vertex_record :: "string \<Rightarrow> bool" where
  "vertex_record l = startsWith (trim l) ''v ''"

definition face_record :: "string \<Rightarrow> bool" where
  "face_record l = (\<not> startsWith (trim l) ''v '' \<and> startsWith (trim l) ''f '')"

text \<open>The vertex references of a face record: the fields after \<open>f\<close>.\<close>

definition face_refs :: "string \<Rightarrow> string list" where
  "face_refs l = drop 1 (split_ws (trim l))"

text \<open>
  The 0-based index of a reference: its leading numeric token, before the first slash,
  minus one.
\<close>

definition ref_index :: "string \<Rightarrow> number" where
  "ref_index r = num_sub (parseInt (takeWhile (\<lambda>c. c \<noteq> CHR ''/'') r)) (Fin 1)"

definition parsed_vertices :: "string list \<Rightarrow> number list list" where
  "parsed_vertices ls = map (\<lambda>l. parseVertex (trim l)) (filter vertex_record ls)"

text \<open>The indices one face record adds to the index buffer.\<close>

definition emitted :: "string \<Rightarrow> number list" where
  "emitted l = (case parseFace (trim l) of Inl e \<Rightarrow> [] | Inr f \<Rightarrow> f)"

section \<open>Scene graph\<close>

text \<open>
  Nodes are objects with identity: a node is an address into a heap of node records, a
  parent link is an address or \<open>null\<close>, and the children array holds addresses. A
  \<open>ModelNode\<close> is a node whose \<open>obj3d\<close> is present. Matrices are values of any type with
  a product and an identity (\<open>mat4.multiply\<close> and \<open>mat4.create\<close> of glMatrix, which is not
  part of the sources).
\<close>

type_synonym addr = nat

text \<open>
  Modelled from the spec: \<open>Object3D\<close> of \<open>js/app/object3d.js\<close> is not in the sources. The
  renderable keeps the buffers it was built from and the matrix that \<open>setTransformation\<close>
  pushes to it.
\<close>

record 'm Object3D =
  obj_vertices :: "number list"
  obj_indices :: "number list"
  model_matrix :: 'm

record 'm node =
  name :: string
  node_type :: string
  transformation :: 'm
  world_transformation :: 'm
  parent :: "addr option"
  children :: "addr list"
  obj3d :: "'m Object3D option"

type_synonym 'm heap = "'m node list"

text \<open>The scene configuration, as parsed from JSON; \<open>content\<close> may be absent.\<close>

datatype 'j node_config =
  NodeConfig (cfg_name: string) (cfg_type: string) (cfg_transformation: 'j)
    (cfg_content: "string option") (cfg_children: "'j node_config list")

record 'j scene_config_t =
  cfg_models :: "(string \<times> string) list"
  cfg_scenegraph :: "'j node_config"

type_synonym model_table = "string \<rightharpoonup> (number list \<times> number list)"

record ('j, 'm) scene =
  scene_config :: "'j scene_config_t"
  models :: model_table
  heap :: "'m heap"
  scenegraph :: addr

subsection \<open>SceneNode\<close>

text \<open>
  The recursions of the scene graph follow links of the heap. A recursion deeper than the
  number of nodes has met a node twice and never ends in JavaScript, where it exhausts the
  stack: the bound \<open>k\<close> counts the depth left, and the calls start with the size of the heap.
\<close>

fun hierarchy :: "nat \<Rightarrow> 'm heap \<Rightarrow> addr \<Rightarrow> 'm list \<Rightarrow> error + 'm list" where
  "hierarchy 0 h a transformations = Inl RangeError"
| "hierarchy (Suc k) h a transformations =
     (let ts = transformations @ [transformation (h ! a)] in
      case parent (h ! a) of None \<Rightarrow> Inr ts | Some p \<Rightarrow> hierarchy k h p ts)"

definition getTransformationHierarchy :: "'m heap \<Rightarrow> addr \<Rightarrow> 'm list \<Rightarrow> error + 'm list" where
  "getTransformationHierarchy h a transformations = hierarchy (length h) h a transformations"

definition calculateWorldTransformation ::
  "('m :: {one, times}) heap \<Rightarrow> addr \<Rightarrow> error + 'm" where
  "calculateWorldTransformation h a =
     (case getTransformationHierarchy h a [] of
        Inl e \<Rightarrow> Inl e
      | Inr transformations \<Rightarrow> Inr (foldl (\<lambda>world transform. world * transform) 1 (rev transformations)))"

text \<open>
  The constructors. The world transformation is computed while \<open>parent\<close> is still unset,
  which \<open>!= null\<close> reads as no parent.
\<close>

definition new_node ::
  "('m :: {one, times}) Object3D option \<Rightarrow> string \<Rightarrow> string \<Rightarrow> 'm \<Rightarrow> 'm heap \<Rightarrow> error + (addr \<times> 'm heap)" where
  "new_node obj nm ty tr h =
     (let a = length h;
          h1 = h @ [\<lparr>name = nm, node_type = ty, transformation = tr, world_transformation = 1,
                     parent = None, children = [], obj3d = obj\<rparr>]
      in case calculateWorldTransformation h1 a of
           Inl e \<Rightarrow> Inl e
         | Inr w \<Rightarrow> Inr (a, h1[a := (h1 ! a)\<lparr>world_transformation := w\<rparr>]))"

definition setParent :: "'m heap \<Rightarrow> addr \<Rightarrow> addr \<Rightarrow> 'm heap" where
  "setParent h a p = h[a := (h ! a)\<lparr>parent := Some p\<rparr>]"

definition addChild :: "'m heap \<Rightarrow> addr \<Rightarrow> addr \<Rightarrow> 'm heap" where
  "addChild h a c = h[a := (h ! a)\<lparr>children := children (h ! a) @ [c]\<rparr>]"

text \<open>
  \<open>setTransformation\<close>, with the override of \<open>ModelNode\<close>: after the base method, a model
  node pushes its world transformation to its renderable.
\<close>

fun setTransformation_rec :: "nat \<Rightarrow> ('m :: {one, times}) heap \<Rightarrow> addr \<Rightarrow> 'm \<Rightarrow> error + 'm heap"
  and setTransformation_children :: "nat \<Rightarrow> 'm heap \<Rightarrow> addr list \<Rightarrow> error + 'm heap" where
  "setTransformation_rec 0 h a t = Inl RangeError"
| "setTransformation_rec (Suc k) h a t =
     (let h1 = h[a := (h ! a)\<lparr>transformation := t\<rparr>] in
      case setTransformation_children k h1 (children (h1 ! a)) of
        Inl e \<Rightarrow> Inl e
      | Inr h2 \<Rightarrow>
          (case calculateWorldTransformation h2 a of
             Inl e \<Rightarrow> Inl e
           | Inr w \<Rightarrow>
               (let h3 = h2[a := (h2 ! a)\<lparr>world_transformation := w\<rparr>] in
                case obj3d (h3 ! a) of
                  None \<Rightarrow> Inr h3
                | Some obj \<Rightarrow>
                    Inr (h3[a := (h3 ! a)\<lparr>obj3d :=
                      Some (obj\<lparr>model_matrix := world_transformation (h3 ! a)\<rparr>)\<rparr>]))))"
| "setTransformation_children k h [] = Inr h"
| "setTransformation_children k h (child # rest) =
     (case setTransformation_rec k h child (transformation (h ! child)) of
        Inl e \<Rightarrow> Inl e
      | Inr h' \<Rightarrow> setTransformation_children k h' rest)"

definition setTransformation :: "('m :: {one, times}) heap \<Rightarrow> addr \<Rightarrow> 'm \<Rightarrow> error + 'm heap" where
  "setTransformation h a t = setTransformation_rec (length h) h a t"

fun getNodes_rec :: "nat \<Rightarrow> 'm heap \<Rightarrow> addr \<Rightarrow> addr list \<Rightarrow> error + addr list"
  and getNodes_children :: "nat \<Rightarrow> 'm heap \<Rightarrow> addr list \<Rightarrow> addr list \<Rightarrow> error + addr list" where
  "getNodes_rec 0 h a nodes = Inl RangeError"
| "getNodes_rec (Suc k) h a nodes = getNodes_children k h (children (h ! a)) (nodes @ [a])"
| "getNodes_children k h [] nodes = Inr nodes"
| "getNodes_children k h (child # rest) nodes =
     (case getNodes_rec k h child nodes of
        Inl e \<Rightarrow> Inl e
      | Inr nodes' \<Rightarrow> getNodes_children k h rest nodes')"

definition getNodes :: "'m heap \<Rightarrow> addr \<Rightarrow> addr list \<Rightarrow> error + addr list" where
  "getNodes h a nodes = getNodes_rec (length h) h a nodes"

text \<open>\<open>getNode\<close>: the result \<open>None\<close> is JavaScript's \<open>null\<close>.\<close>

fun getNode_rec :: "nat \<Rightarrow> 'm heap \<Rightarrow> addr \<Rightarrow> string \<Rightarrow> error + addr option"
  and getNode_children :: "nat \<Rightarrow> 'm heap \<Rightarrow> addr list \<Rightarrow> string \<Rightarrow> error + addr option" where
  "getNode_rec 0 h a nm = Inl RangeError"
| "getNode_rec (Suc k) h a nm =
     (if name (h ! a) = nm then Inr (Some a) else getNode_children k h (children (h ! a)) nm)"
| "getNode_children k h [] nm = Inr None"
| "getNode_children k h (child # rest) nm =
     (case getNode_rec k h child nm of
        Inl e \<Rightarrow> Inl e
      | Inr (Some node) \<Rightarrow> Inr (Some node)
      | Inr None \<Rightarrow> getNode_children k h rest nm)"

definition getNode :: "'m heap \<Rightarrow> addr \<Rightarrow> string \<Rightarrow> error + addr option" where
  "getNode h a nm = getNode_rec (length h) h a nm"

subsection \<open>Scene\<close>

definition quoted :: "string option \<Rightarrow> string" where
  "quoted nm = [CHR 0x22] @ (case nm of None \<Rightarrow> ''undefined'' | Some s \<Rightarrow> s) @ [CHR 0x22]"

definition ModelNotFound :: "string option \<Rightarrow> error" where
  "ModelNotFound nm = Thrown (''Unable to find model '' @ quoted nm @ '' requested by scenengraph'')"

definition NodeNotFound :: "string \<Rightarrow> error" where
  "NodeNotFound nm = Thrown (''Node '' @ quoted (Some nm) @ '' not found in scenegraph'')"

text \<open>
  \<open>loadModels\<close>: one \<open>load\<close> per entry, a later entry of the same name replacing an
  earlier one. \<open>fs\<close> is \<open>loadExternalFile\<close>: the contents of the file of a given path.
\<close>

fun loadModels_loop ::
  "(string \<Rightarrow> string) \<Rightarrow> (string \<times> string) list \<Rightarrow> model_table \<Rightarrow> error + model_table" where
  "loadModels_loop fs [] ms = Inr ms"
| "loadModels_loop fs ((nm, obj) # rest) ms =
     (case load (fs obj) of
        Inl e \<Rightarrow> Inl e
      | Inr m \<Rightarrow> loadModels_loop fs rest (ms(nm \<mapsto> m)))"

definition loadModels :: "(string \<Rightarrow> string) \<Rightarrow> (string \<times> string) list \<Rightarrow> error + model_table" where
  "loadModels fs models_config = loadModels_loop fs models_config Map.empty"

text \<open>
  \<open>instantiateModel\<close>. In \<open>!name in this.models\<close> the negation applies to \<open>name\<close> alone,
  so the key that is looked for is the text of a boolean: \<open>false\<close> for a name that is a
  non-empty string, \<open>true\<close> for an empty or absent one. The destructuring of
  \<open>this.models[name]\<close> then raises a TypeError when the table has no such model. Model names
  are keys of their own in the table (none is \<open>__proto__\<close>).
\<close>

definition negated_key :: "string option \<Rightarrow> string" where
  "negated_key nm = (if nm = None \<or> nm = Some [] then ''true'' else ''false'')"

definition property_key :: "string option \<Rightarrow> string" where
  "property_key nm = (case nm of None \<Rightarrow> ''undefined'' | Some s \<Rightarrow> s)"

definition instantiateModel ::
  "model_table \<Rightarrow> string option \<Rightarrow> error + ('m :: {one, times}) Object3D" where
  "instantiateModel ms nm =
     (if negated_key nm \<in> dom ms then Inl (ModelNotFound nm)
      else case ms (property_key nm) of
             None \<Rightarrow> Inl TypeError
           | Some (vs, ixs) \<Rightarrow> Inr \<lparr>obj_vertices = vs, obj_indices = ixs, model_matrix = 1\<rparr>)"

text \<open>
  \<open>loadScenegraphNode\<close>. \<open>j2t\<close> is \<open>json2transform\<close> of \<open>js/utils/utils.js\<close>, which is not
  in the sources. A type other than \<open>node\<close> and \<open>model\<close> leaves \<open>node\<close> null, and a call of
  a method of null raises a TypeError.
\<close>

fun loadScenegraphNode ::
    "('j \<Rightarrow> 'm) \<Rightarrow> model_table \<Rightarrow> 'j node_config \<Rightarrow> ('m :: {one, times}) heap \<Rightarrow>
     error + (addr option \<times> 'm heap)"
  and loadChildren ::
    "('j \<Rightarrow> 'm) \<Rightarrow> model_table \<Rightarrow> addr option \<Rightarrow> 'j node_config list \<Rightarrow> 'm heap \<Rightarrow>
     error + 'm heap" where
  "loadScenegraphNode j2t ms (NodeConfig nm ty tr content chs) h =
     (case
        (if ty = ''node'' then
           (case new_node None nm ty (j2t tr) h of
              Inl e \<Rightarrow> Inl e
            | Inr (a, h1) \<Rightarrow> Inr (Some a, h1))
         else if ty = ''model'' then
           (case instantiateModel ms content of
              Inl e \<Rightarrow> Inl e
            | Inr obj \<Rightarrow>
                (case new_node (Some obj) nm ty (j2t tr) h of
                   Inl e \<Rightarrow> Inl e
                 | Inr (a, h1) \<Rightarrow> Inr (Some a, h1)))
         else Inr (None, h))
      of
        Inl e \<Rightarrow> Inl e
      | Inr (node, h1) \<Rightarrow>
          (case loadChildren j2t ms node chs h1 of
             Inl e \<Rightarrow> Inl e
           | Inr h2 \<Rightarrow> Inr (node, h2)))"
| "loadChildren j2t ms node [] h = Inr h"
| "loadChildren j2t ms node (child # rest) h =
     (case loadScenegraphNode j2t ms child h of
        Inl e \<Rightarrow> Inl e
      | Inr (child_node, h1) \<Rightarrow>
          (case node of
             None \<Rightarrow> Inl TypeError
           | Some n \<Rightarrow>
               (case child_node of
                  None \<Rightarrow> Inl TypeError
                | Some c \<Rightarrow> loadChildren j2t ms node rest (setParent (addChild h1 n c) c n))))"

definition Scene ::
  "(string \<Rightarrow> string) \<Rightarrow> ('j \<Rightarrow> 'm) \<Rightarrow> 'j scene_config_t \<Rightarrow> error + ('j, 'm :: {one, times}) scene" where
  "Scene fs j2t config =
     (case loadModels fs (cfg_models config) of
        Inl e \<Rightarrow> Inl e
      | Inr ms \<Rightarrow>
          (case loadScenegraphNode j2t ms (cfg_scenegraph config) [] of
             Inl e \<Rightarrow> Inl e
           | Inr (None, h) \<Rightarrow> Inl TypeError
           | Inr (Some node, h) \<Rightarrow>
               (case setTransformation h node (transformation (h ! node)) of
                  Inl e \<Rightarrow> Inl e
                | Inr h' \<Rightarrow>
                    Inr \<lparr>scene_config = config, models = ms, heap = h', scenegraph = node\<rparr>)))"

definition Scene_getNodes :: "('j, 'm) scene \<Rightarrow> error + addr list" where
  "Scene_getNodes sc = getNodes (heap sc) (scenegraph sc) []"

definition Scene_getNode :: "('j, 'm) scene \<Rightarrow> string \<Rightarrow> error + addr" where
  "Scene_getNode sc nm =
     (case getNode (heap sc) (scenegraph sc) nm of
        Inl e \<Rightarrow> Inl e
      | Inr None \<Rightarrow> Inl (NodeNotFound nm)
      | Inr (Some node) \<Rightarrow> Inr node)"

section \<open>Bounding boxes\<close>

text \<open>
  What the normalization is meant to achieve, said without the loader: the axis-aligned
  bounding box of a list of vertices, its spans and its centre, and the vertices moved by
  the offset \<open>-(max + min) / 2\<close> of each axis and scaled by 2 over the largest span.
\<close>

definition bbox_min :: "number list list \<Rightarrow> number list" where
  "bbox_min vs = foldl (map2 Math_min) [PInf, PInf, PInf] vs"

definition bbox_max :: "number list list \<Rightarrow> number list" where
  "bbox_max vs = foldl (map2 Math_max) [NInf, NInf, NInf] vs"





text \<open>
  Notions of the proofs: one coordinate of every vertex, meshes of finite coordinates
  bounded by \<open>B\<close>, and the mesh centred and scaled in real arithmetic.
\<close>

definition column :: "nat \<Rightarrow> 'a list list \<Rightarrow> 'a list" where
  "column j vs = map (\<lambda>v. v ! j) vs"

definition finite_mesh :: "real \<Rightarrow> real list list \<Rightarrow> bool" where
  "finite_mesh B rss = (rss \<noteq> [] \<and> (\<forall>r \<in> set rss. length r = 3 \<and> (\<forall>c \<in> set r. \<bar>c\<bar> \<le> B)))"

definition lift :: "real list list \<Rightarrow> number list list" where
  "lift rss = map (map Fin) rss"

definition the_fin :: "number \<Rightarrow> real" where
  "the_fin n = (case n of Fin r \<Rightarrow> r | _ \<Rightarrow> 0)"


section \<open>Trees in the heap\<close>

text \<open>
  A tree of addresses describes which nodes of a heap form a scene graph: \<open>shape h p T\<close>
  says that the root of \<open>T\<close> has parent \<open>p\<close>, that the children array of every node lists
  the roots of its subtrees in order, and that every child points back to its parent. A
  tree has no node twice.
\<close>

datatype atree = AT addr "atree list"

fun root_of :: "atree \<Rightarrow> addr" where
  "root_of (AT a ts) = a"

fun preorder :: "atree \<Rightarrow> addr list" where
  "preorder (AT a ts) = a # concat (map preorder ts)"

fun height :: "atree \<Rightarrow> nat" where
  "height (AT a ts) = Suc (foldr max (map height ts) 0)"

fun shape :: "'m heap \<Rightarrow> addr option \<Rightarrow> atree \<Rightarrow> bool" where
  "shape h p (AT a ts) =
     (a < length h \<and> parent (h ! a) = p \<and> children (h ! a) = map root_of ts \<and>
      (\<forall>t \<in> set ts. shape h (Some a) t))"

definition is_tree :: "'m heap \<Rightarrow> atree \<Rightarrow> bool" where
  "is_tree h T = (shape h None T \<and> distinct (preorder T))"

fun node_count :: "atree \<Rightarrow> nat" where
  "node_count (AT a ts) = Suc (sum_list (map node_count ts))"


text \<open>\<open>before xs a b\<close>: \<open>b\<close> occurs in \<open>xs\<close> after the first \<open>a\<close>.\<close>

definition before :: "addr list \<Rightarrow> addr \<Rightarrow> addr \<Rightarrow> bool" where
  "before xs a b = (b \<in> set (drop 1 (dropWhile (\<lambda>x. x \<noteq> a) xs)))"

text \<open>
  The world transformation that the hierarchy prescribes: for every path from the root to a
  node, the product of the local transformations along the path, from the identity, root
  first. \<open>worlds_ok\<close> says the same top-down, with the local transformations of the
  ancestors at hand.
\<close>

definition locals :: "'m heap \<Rightarrow> addr list \<Rightarrow> 'm list" where
  "locals h xs = map (\<lambda>x. transformation (h ! x)) xs"

fun paths_from :: "addr list \<Rightarrow> atree \<Rightarrow> addr list list" where
  "paths_from ancestors (AT a ts) =
     (ancestors @ [a]) # concat (map (paths_from (ancestors @ [a])) ts)"

definition worlds_consistent :: "('m :: {one, times}) heap \<Rightarrow> atree \<Rightarrow> bool" where
  "worlds_consistent h T =
     (\<forall>path \<in> set (paths_from [] T).
        world_transformation (h ! last path) =
          foldl (\<lambda>world transform. world * transform) 1 (locals h path))"

fun worlds_ok :: "('m :: {one, times}) heap \<Rightarrow> 'm list \<Rightarrow> atree \<Rightarrow> bool" where
  "worlds_ok h ancestors (AT a ts) =
     (world_transformation (h ! a) =
        foldl (\<lambda>world transform. world * transform) 1 (ancestors @ [transformation (h ! a)]) \<and>
      (\<forall>t \<in> set ts. worlds_ok h (ancestors @ [transformation (h ! a)]) t))"

text \<open>The renderable of a model node mirrors the world transformation of the node.\<close>

definition renderable_ok :: "'m node \<Rightarrow> bool" where
  "renderable_ok n =
     (case obj3d n of None \<Rightarrow> True | Some obj \<Rightarrow> model_matrix obj = world_transformation n)"

definition renderables_ok :: "'m heap \<Rightarrow> atree \<Rightarrow> bool" where
  "renderables_ok h T = (\<forall>a \<in> set (preorder T). renderable_ok (h ! a))"

text \<open>A sequence of calls of \<open>setTransformation\<close>, as the application makes them.\<close>

fun setTransformations :: "('m :: {one, times}) heap \<Rightarrow> (addr \<times> 'm) list \<Rightarrow> error + 'm heap" where
  "setTransformations h [] = Inr h"
| "setTransformations h ((a, m) # calls) =
     (case setTransformation h a m of
        Inl e \<Rightarrow> Inl e
      | Inr h' \<Rightarrow> setTransformations h' calls)"

text \<open>
  The tree that \<open>loadScenegraphNode\<close> builds from a configuration: nodes are created in
  depth-first pre-order, so the node of a configuration laid out from address \<open>n\<close> is \<open>n\<close>
  and its descendants follow.
\<close>

fun config_size :: "'j node_config \<Rightarrow> nat" where
  "config_size (NodeConfig nm ty tr content chs) = Suc (sum_list (map config_size chs))"

fun config_names :: "'j node_config \<Rightarrow> string list" where
  "config_names (NodeConfig nm ty tr content chs) = nm # concat (map config_names chs)"

fun layout :: "nat \<Rightarrow> 'j node_config \<Rightarrow> atree"
  and layouts :: "nat \<Rightarrow> 'j node_config list \<Rightarrow> atree list" where
  "layout n (NodeConfig nm ty tr content chs) = AT n (layouts (Suc n) chs)"
| "layouts n [] = []"
| "layouts n (c # cs) = layout n c # layouts (n + config_size c) cs"

text \<open>
  Notions of the proofs: the chain of ancestors of a node along the parent links, heaps
  that differ in world transformations and renderables only, and the two assignments of
  \<open>setTransformation\<close> as heap updates.
\<close>

fun linked :: "'m heap \<Rightarrow> addr \<Rightarrow> addr list \<Rightarrow> bool" where
  "linked h a [] = (parent (h ! a) = None)"
| "linked h a (p # ps) = (parent (h ! a) = Some p \<and> linked h p ps)"

definition same_links :: "'m heap \<Rightarrow> 'm heap \<Rightarrow> bool" where
  "same_links h h' =
     (length h' = length h \<and>
      (\<forall>x. name (h' ! x) = name (h ! x) \<and> node_type (h' ! x) = node_type (h ! x) \<and>
           transformation (h' ! x) = transformation (h ! x) \<and>
           parent (h' ! x) = parent (h ! x) \<and> children (h' ! x) = children (h ! x) \<and>
           (obj3d (h' ! x) = None) = (obj3d (h ! x) = None)))"

definition push_world :: "'m heap \<Rightarrow> addr \<Rightarrow> 'm \<Rightarrow> 'm heap" where
  "push_world h a w =
     (let h3 = h[a := (h ! a)\<lparr>world_transformation := w\<rparr>] in
      case obj3d (h3 ! a) of
        None \<Rightarrow> h3
      | Some obj \<Rightarrow> h3[a := (h3 ! a)\<lparr>obj3d := Some (obj\<lparr>model_matrix := world_transformation (h3 ! a)\<rparr>)\<rparr>])"

definition with_local :: "'m heap \<Rightarrow> addr \<Rightarrow> 'm \<Rightarrow> 'm heap" where
  "with_local h a m = h[a := (h ! a)\<lparr>transformation := m\<rparr>]"

section \<open>An example scene\<close>

text \<open>
  A scene of four nodes over integer matrices, with one model: the concrete input of the
  examples that follow the theorems.
\<close>

definition example_config :: "int scene_config_t" where
  "example_config =
     \<lparr>cfg_models = [(''cube'', ''cube.obj'')],
      cfg_scenegraph =
        NodeConfig ''root'' ''node'' 2 None
          [NodeConfig ''arm'' ''model'' 3 (Some ''cube'') [NodeConfig ''hand'' ''node'' 5 None []],
           NodeConfig ''leg'' ''node'' 7 None []]\<rparr>"

definition example_files :: "string \<Rightarrow> string" where
  "example_files path = ''f 1 2 3''"

section \<open>Properties of the mesh loader\<close>

subsection \<open>Strings and numbers\<close>

lemma split_char_nonempty: "split_char c s \<noteq> []"
  by (induction s) (auto simp: Let_def)

lemma hd_split_char: "hd (split_char c s) = takeWhile (\<lambda>x. x \<noteq> c) s"
  by (induction s) (auto simp: Let_def)

lemma MAX_VALUE_large: "2 ^ 64 < MAX_VALUE"
  by (simp add: MAX_VALUE_def)

lemma MAX_VALUE_less_threshold: "MAX_VALUE < overflow_threshold"
  by (simp add: MAX_VALUE_def overflow_threshold_def)

lemma to_number_exact: "\<bar>r\<bar> \<le> MAX_VALUE \<Longrightarrow> to_number r = Fin r"
  using MAX_VALUE_less_threshold by (auto simp: to_number_def)

lemma to_number_small: "\<bar>r\<bar> \<le> 2 ^ 64 \<Longrightarrow> to_number r = Fin r"
  using MAX_VALUE_large by (intro to_number_exact) linarith

lemma small_le_MAX_VALUE: "r \<le> 2 ^ 64 \<Longrightarrow> (r \<le> MAX_VALUE) = True"
  using MAX_VALUE_large by simp

lemma MAX_VALUE_le_small: "r \<le> 2 ^ 64 \<Longrightarrow> (MAX_VALUE \<le> r) = False"
  using MAX_VALUE_large by simp

lemma neg_MAX_VALUE_le_small: "- (2 ^ 64) \<le> r \<Longrightarrow> (- MAX_VALUE \<le> r) = True"
  using MAX_VALUE_large by simp

lemma small_le_neg_MAX_VALUE: "- (2 ^ 64) \<le> r \<Longrightarrow> (r \<le> - MAX_VALUE) = False"
  using MAX_VALUE_large by simp

lemma to_number_initial_extent: "to_number (- MAX_VALUE - MAX_VALUE) = NInf"
  by (simp add: to_number_def MAX_VALUE_def overflow_threshold_def)

text \<open>Rules that evaluate the loader on a concrete file with small coordinates.\<close>

lemmas number_eval =
  parseInt_def parseFloat_def exponent_of_def digits_value_def is_digit_def is_hex_digit_def
  is_space_def num_sub_def Let_def to_number_small small_le_MAX_VALUE MAX_VALUE_le_small
  neg_MAX_VALUE_le_small small_le_neg_MAX_VALUE to_number_initial_extent

lemmas load_eval =
  load_def initial_state_def trim_def startsWith_def parseVertex_def parseFace_def split_ws_def
  nth_string_def normalize_def scale_of_def offset_of_def largest_extent_def extents_def
  Math_max3_def triangulateFace_def UnsupportedFaceFormat_def





subsection \<open>Faces\<close>

lemma parseFace_refs:
  "parseFace (trim l) =
     (if length (face_refs l) = 3 then Inr (map ref_index (face_refs l))
      else if length (face_refs l) = 4 then Inr (triangulateFace (map ref_index (face_refs l)))
      else Inl UnsupportedFaceFormat)"
proof -
  have "(\<lambda>part. num_sub (parseInt (hd (split_char CHR ''/'' part))) (Fin 1)) = ref_index"
    by (rule ext) (simp add: ref_index_def hd_split_char)
  then show ?thesis
    by (simp add: parseFace_def face_refs_def Let_def)
qed

lemma load_lines_Inr:
  "load_lines ls st = Inr st' \<Longrightarrow>
     vertices st' = vertices st @ parsed_vertices ls \<and>
     indices st' = indices st @ concat (map emitted (filter face_record ls)) \<and>
     minExtent st' = foldl (map2 Math_min) (minExtent st) (parsed_vertices ls) \<and>
     maxExtent st' = foldl (map2 Math_max) (maxExtent st) (parsed_vertices ls)"
proof (induction ls arbitrary: st)
  case Nil
  then show ?case by (simp add: parsed_vertices_def)
next
  case (Cons l ls)
  show ?case
  proof (cases "vertex_record l")
    case True
    with Cons.prems Cons.IH show ?thesis
      by (simp add: vertex_record_def face_record_def parsed_vertices_def Let_def)
  next
    case nv: False
    show ?thesis
    proof (cases "face_record l")
      case True
      then have f: "startsWith (trim l) ''f ''" and v: "\<not> startsWith (trim l) ''v ''"
        by (simp_all add: face_record_def)
      from Cons.prems f v obtain fi where
        pf: "parseFace (trim l) = Inr fi" and
        rest: "load_lines ls (st\<lparr>indices := indices st @ fi\<rparr>) = Inr st'"
        by (auto simp: Let_def split: sum.splits)
      from Cons.IH [OF rest] pf True nv show ?thesis
        by (simp add: emitted_def parsed_vertices_def)
    next
      case False
      with nv Cons.prems have "load_lines ls st = Inr st'"
        by (simp add: vertex_record_def face_record_def Let_def)
      from Cons.IH [OF this] False nv show ?thesis
        by (simp add: parsed_vertices_def)
    qed
  qed
qed

lemma load_lines_bad_face:
  "l \<in> set ls \<Longrightarrow> face_record l \<Longrightarrow> length (face_refs l) \<noteq> 3 \<Longrightarrow> length (face_refs l) \<noteq> 4 \<Longrightarrow>
   load_lines ls st = Inl UnsupportedFaceFormat"
proof (induction ls arbitrary: st)
  case Nil
  then show ?case by simp
next
  case (Cons a ls)
  show ?case
  proof (cases "face_record a")
    case True
    then show ?thesis
      using Cons
      by (auto simp: face_record_def Let_def parseFace_refs split: sum.splits if_splits)
  next
    case False
    with Cons have "l \<in> set ls" by auto
    from Cons.IH [OF this Cons.prems(2-4)] show ?thesis
      by (auto simp: face_record_def Let_def parseFace_refs split: sum.splits)
  qed
qed

lemma load_lines_good_faces:
  "\<forall>l \<in> set ls. face_record l \<longrightarrow> length (face_refs l) = 3 \<or> length (face_refs l) = 4 \<Longrightarrow>
   \<exists>st'. load_lines ls st = Inr st'"
proof (induction ls arbitrary: st)
  case Nil
  then show ?case by simp
next
  case (Cons a ls)
  then have ih: "\<And>st. \<exists>st'. load_lines ls st = Inr st'" by simp
  show ?case
  proof (cases "face_record a")
    case True
    with Cons.prems have "length (face_refs a) = 3 \<or> length (face_refs a) = 4" by simp
    with True ih show ?thesis
      by (auto simp: face_record_def Let_def parseFace_refs)
  next
    case False
    with ih show ?thesis
      by (auto simp: face_record_def Let_def split: sum.splits)
  qed
qed




text \<open>
  Claim C5. When a line of the file is a face record whose number of vertex references is
  neither 3 nor 4, \<open>load\<close> ends with the error \<open>Unsupported face format\<close>: its result is the
  error alone, with no vertex or index buffer.
\<close>

theorem load_rejects_other_arity:
  "l \<in> set (lines_of contents) \<Longrightarrow> face_record l \<Longrightarrow>
   length (face_refs l) \<noteq> 3 \<Longrightarrow> length (face_refs l) \<noteq> 4 \<Longrightarrow>
   load contents = Inl (Thrown ''Unsupported face format'')"
  using load_lines_bad_face [of l "lines_of contents" initial_state]
  by (simp add: load_def lines_of_def UnsupportedFaceFormat_def)

theorem load_rejects_other_arity_witness:
  "''f 1 2 3 4 5'' \<in> set (lines_of (''v 0 0 0'' @ [CHR 0x0A] @ ''f 1 2 3 4 5'')) \<and>
   face_record ''f 1 2 3 4 5'' \<and> length (face_refs ''f 1 2 3 4 5'') = 5 \<and>
   load (''v 0 0 0'' @ [CHR 0x0A] @ ''f 1 2 3 4 5'') = Inl (Thrown ''Unsupported face format'')"
proof -
  let ?file = "''v 0 0 0'' @ [CHR 0x0A] @ ''f 1 2 3 4 5''"
  have m: "''f 1 2 3 4 5'' \<in> set (lines_of ?file)" by code_simp
  have f: "face_record ''f 1 2 3 4 5''" by code_simp
  have n: "length (face_refs ''f 1 2 3 4 5'') = 5" by code_simp
  from load_rejects_other_arity [OF m f] n show ?thesis
    using m f by simp
qed

text \<open>
  Claim C10. A face record of three or four references adds its indices to the index
  buffer whatever the vertices parsed so far: the state is not consulted. So a file whose
  face refers to vertex 0 and to vertex 6 of three is loaded without error, and the index
  buffer returned holds -1 and 5.
\<close>

theorem load_keeps_out_of_range_indices:
  "(face_record l \<and> length (face_refs l) = 3 \<longrightarrow>
      load_lines [l] st = Inr (st\<lparr>indices := indices st @ map ref_index (face_refs l)\<rparr>)) \<and>
   (face_record l \<and> face_refs l = [a, b, c, d] \<longrightarrow>
      load_lines [l] st =
        Inr (st\<lparr>indices := indices st @
          [ref_index a, ref_index b, ref_index c, ref_index a, ref_index c, ref_index d]\<rparr>)) \<and>
   ref_index ''0'' = Fin (- 1) \<and>
   load (''v 0 0 0'' @ [CHR 0x0A] @ ''v 1 0 0'' @ [CHR 0x0A] @ ''v 0 1 0'' @ [CHR 0x0A] @ ''f 0 1 6'') =
     Inr ([Fin (- 1), Fin (- 1), Fin 0, Fin 1, Fin (- 1), Fin 0, Fin (- 1), Fin 1, Fin 0],
          [Fin (- 1), Fin 0, Fin 5])"
proof -
  have "ref_index ''0'' = Fin (- 1)"
    by (simp add: ref_index_def number_eval)
  moreover have
    "load (''v 0 0 0'' @ [CHR 0x0A] @ ''v 1 0 0'' @ [CHR 0x0A] @ ''v 0 1 0'' @ [CHR 0x0A] @ ''f 0 1 6'') =
     Inr ([Fin (- 1), Fin (- 1), Fin 0, Fin 1, Fin (- 1), Fin 0, Fin (- 1), Fin 1, Fin 0],
          [Fin (- 1), Fin 0, Fin 5])"
    by (simp add: load_eval number_eval)
  ultimately show ?thesis
    by (simp add: face_record_def Let_def parseFace_refs triangulateFace_def)
qed

theorem load_keeps_out_of_range_indices_witness:
  "face_record ''f 0 1 6'' \<and> length (face_refs ''f 0 1 6'') = 3 \<and>
   load_lines [''f 0 1 6''] initial_state =
     Inr (initial_state\<lparr>indices := [Fin (- 1), Fin 0, Fin 5]\<rparr>)"
proof -
  have f: "face_record ''f 0 1 6''" by code_simp
  have r: "face_refs ''f 0 1 6'' = [''0'', ''1'', ''6'']" by code_simp
  have i: "map ref_index [''0'', ''1'', ''6''] = [Fin (- 1), Fin 0, Fin 5]"
    by (simp add: ref_index_def number_eval)
  have e: "indices initial_state = []" by (simp add: initial_state_def)
  from load_keeps_out_of_range_indices [of "''f 0 1 6''" initial_state "''0''" "''1''" "''6''" "''6''"]
    f r i e
  show ?thesis by simp
qed

subsection \<open>Normalization\<close>

lemma foldl_map2_axis:
  "length ms = n \<Longrightarrow> \<forall>v \<in> set vs. length v = n \<Longrightarrow>
   length (foldl (map2 f) ms vs) = n \<and>
   (\<forall>j < n. foldl (map2 f) ms vs ! j = foldl f (ms ! j) (column j vs))"
proof (induction vs arbitrary: ms)
  case Nil
  then show ?case by (simp add: column_def)
next
  case (Cons v vs)
  then have "length (map2 f ms v) = n" by simp
  moreover from Cons.prems have "\<forall>v \<in> set vs. length v = n" by simp
  ultimately have ih: "length (foldl (map2 f) (map2 f ms v) vs) = n \<and>
      (\<forall>j < n. foldl (map2 f) (map2 f ms v) vs ! j = foldl f (map2 f ms v ! j) (column j vs))"
    by (rule Cons.IH)
  have "map2 f ms v ! j = f (ms ! j) (v ! j)" if "j < n" for j
    using that Cons.prems by simp
  with ih show ?case by (simp add: column_def)
qed

lemma foldl_min_Min: "foldl min (a :: real) cs = Min (insert a (set cs))"
proof (induction cs arbitrary: a)
  case Nil
  then show ?case by simp
next
  case (Cons c cs)
  have "Min (insert (min a c) (set cs)) = Min (insert a (insert c (set cs)))"
    by (cases "set cs = {}") (simp_all add: min.assoc min.commute)
  with Cons show ?case by simp
qed

lemma foldl_max_Max: "foldl max (a :: real) cs = Max (insert a (set cs))"
proof (induction cs arbitrary: a)
  case Nil
  then show ?case by simp
next
  case (Cons c cs)
  have "Max (insert (max a c) (set cs)) = Max (insert a (insert c (set cs)))"
    by (cases "set cs = {}") (simp_all add: max.assoc max.commute)
  with Cons show ?case by simp
qed

lemma foldl_Math_min_Fin: "foldl Math_min (Fin a) (map Fin cs) = Fin (foldl min a cs)"
  by (induction cs arbitrary: a) (simp_all add: min_def)

lemma foldl_Math_max_Fin: "foldl Math_max (Fin a) (map Fin cs) = Fin (foldl max a cs)"
  by (induction cs arbitrary: a) (simp_all add: max_def)

lemma foldl_Math_min_PInf:
  "cs \<noteq> [] \<Longrightarrow> foldl Math_min PInf (map Fin cs) = Fin (Min (set cs))"
  by (cases cs) (simp_all add: foldl_Math_min_Fin foldl_min_Min)

lemma foldl_Math_max_NInf:
  "cs \<noteq> [] \<Longrightarrow> foldl Math_max NInf (map Fin cs) = Fin (Max (set cs))"
  by (cases cs) (simp_all add: foldl_Math_max_Fin foldl_max_Max)

lemma foldl_Math_min_MAX:
  "cs \<noteq> [] \<Longrightarrow> \<forall>c \<in> set cs. c \<le> MAX_VALUE \<Longrightarrow>
   foldl Math_min (Fin MAX_VALUE) (map Fin cs) = Fin (Min (set cs))"
proof -
  assume ne: "cs \<noteq> []" and le: "\<forall>c \<in> set cs. c \<le> MAX_VALUE"
  then have "Min (set cs) \<le> MAX_VALUE" by (simp add: Min_le_iff)
  then have "Min (insert MAX_VALUE (set cs)) = Min (set cs)"
    using ne by (simp add: min_absorb2)
  then show ?thesis by (simp add: foldl_Math_min_Fin foldl_min_Min)
qed

lemma foldl_Math_max_MAX:
  "cs \<noteq> [] \<Longrightarrow> \<forall>c \<in> set cs. - MAX_VALUE \<le> c \<Longrightarrow>
   foldl Math_max (Fin (- MAX_VALUE)) (map Fin cs) = Fin (Max (set cs))"
proof -
  assume ne: "cs \<noteq> []" and le: "\<forall>c \<in> set cs. - MAX_VALUE \<le> c"
  then obtain c where c: "c \<in> set cs" by (cases cs) auto
  then have "c \<le> Max (set cs)" by simp
  moreover have "- MAX_VALUE \<le> c" using le c by simp
  ultimately have "- MAX_VALUE \<le> Max (set cs)" by linarith
  then have "Max (insert (- MAX_VALUE) (set cs)) = Max (set cs)"
    using ne by (simp add: max_absorb2)
  then show ?thesis by (simp add: foldl_Math_max_Fin foldl_max_Max)
qed

lemma list3: "length xs = 3 \<Longrightarrow> xs = [xs ! 0, xs ! 1, xs ! 2]"
  by (cases xs; cases "tl xs"; cases "tl (tl xs)") auto

lemma list3_eqI:
  "length xs = 3 \<Longrightarrow> \<forall>j < 3. xs ! j = f j \<Longrightarrow> xs = [f 0, f 1, f 2]"
  using list3 [of xs] by simp

lemma column_lift:
  "finite_mesh B rss \<Longrightarrow> j < 3 \<Longrightarrow> column j (lift rss) = map Fin (column j rss)"
  by (simp add: column_def lift_def finite_mesh_def)

lemma column_facts:
  assumes "finite_mesh B rss" and "j < 3"
  shows "column j rss \<noteq> []" and "\<forall>c \<in> set (column j rss). \<bar>c\<bar> \<le> B"
    and "\<bar>Min (set (column j rss))\<bar> \<le> B" and "\<bar>Max (set (column j rss))\<bar> \<le> B"
    and "\<forall>c \<in> set (column j rss). Min (set (column j rss)) \<le> c \<and> c \<le> Max (set (column j rss))"
proof -
  show ne: "column j rss \<noteq> []" using assms by (simp add: column_def finite_mesh_def)
  show b: "\<forall>c \<in> set (column j rss). \<bar>c\<bar> \<le> B"
    using assms by (auto simp: column_def finite_mesh_def)
  have "Min (set (column j rss)) \<in> set (column j rss)" using ne by (intro Min_in) simp_all
  with b show "\<bar>Min (set (column j rss))\<bar> \<le> B" by blast
  have "Max (set (column j rss)) \<in> set (column j rss)" using ne by (intro Max_in) simp_all
  with b show "\<bar>Max (set (column j rss))\<bar> \<le> B" by blast
  show "\<forall>c \<in> set (column j rss). Min (set (column j rss)) \<le> c \<and> c \<le> Max (set (column j rss))"
    by simp
qed

lemma rows_lift_length: "finite_mesh B rss \<Longrightarrow> \<forall>v \<in> set (lift rss). length v = 3"
  by (auto simp: lift_def finite_mesh_def)

lemma bbox_lift:
  assumes "finite_mesh B rss"
  shows "bbox_min (lift rss) =
      [Fin (Min (set (column 0 rss))), Fin (Min (set (column 1 rss))), Fin (Min (set (column 2 rss)))]"
    and "bbox_max (lift rss) =
      [Fin (Max (set (column 0 rss))), Fin (Max (set (column 1 rss))), Fin (Max (set (column 2 rss)))]"
proof -
  note rl = rows_lift_length [OF assms]
  have mn: "length (foldl (map2 Math_min) [PInf, PInf, PInf] (lift rss)) = 3 \<and>
      (\<forall>j < 3. foldl (map2 Math_min) [PInf, PInf, PInf] (lift rss) ! j =
         foldl Math_min ([PInf, PInf, PInf] ! j) (column j (lift rss)))"
    using rl by (intro foldl_map2_axis) simp_all
  have "\<forall>j < 3. bbox_min (lift rss) ! j = Fin (Min (set (column j rss)))"
  proof (intro allI impI)
    fix j :: nat
    assume j: "j < 3"
    then have "[PInf, PInf, PInf] ! j = PInf" by (auto simp: less_Suc_eq numeral_3_eq_3)
    with mn j show "bbox_min (lift rss) ! j = Fin (Min (set (column j rss)))"
      using column_lift [OF assms j] column_facts(1) [OF assms j]
      by (simp add: bbox_min_def foldl_Math_min_PInf)
  qed
  with mn show "bbox_min (lift rss) =
      [Fin (Min (set (column 0 rss))), Fin (Min (set (column 1 rss))), Fin (Min (set (column 2 rss)))]"
    by (intro list3_eqI) (simp_all add: bbox_min_def)
  have mx: "length (foldl (map2 Math_max) [NInf, NInf, NInf] (lift rss)) = 3 \<and>
      (\<forall>j < 3. foldl (map2 Math_max) [NInf, NInf, NInf] (lift rss) ! j =
         foldl Math_max ([NInf, NInf, NInf] ! j) (column j (lift rss)))"
    using rl by (intro foldl_map2_axis) simp_all
  have "\<forall>j < 3. bbox_max (lift rss) ! j = Fin (Max (set (column j rss)))"
  proof (intro allI impI)
    fix j :: nat
    assume j: "j < 3"
    then have "[NInf, NInf, NInf] ! j = NInf" by (auto simp: less_Suc_eq numeral_3_eq_3)
    with mx j show "bbox_max (lift rss) ! j = Fin (Max (set (column j rss)))"
      using column_lift [OF assms j] column_facts(1) [OF assms j]
      by (simp add: bbox_max_def foldl_Math_max_NInf)
  qed
  with mx show "bbox_max (lift rss) =
      [Fin (Max (set (column 0 rss))), Fin (Max (set (column 1 rss))), Fin (Max (set (column 2 rss)))]"
    by (intro list3_eqI) (simp_all add: bbox_max_def)
qed

lemma code_extents_lift:
  assumes "finite_mesh B rss" and "B \<le> MAX_VALUE"
  shows "foldl (map2 Math_min) [Fin MAX_VALUE, Fin MAX_VALUE, Fin MAX_VALUE] (lift rss) =
      bbox_min (lift rss)"
    and "foldl (map2 Math_max) [Fin (- MAX_VALUE), Fin (- MAX_VALUE), Fin (- MAX_VALUE)] (lift rss) =
      bbox_max (lift rss)"
proof -
  note rl = rows_lift_length [OF assms(1)]
  let ?m = "[Fin MAX_VALUE, Fin MAX_VALUE, Fin MAX_VALUE]"
  let ?M = "[Fin (- MAX_VALUE), Fin (- MAX_VALUE), Fin (- MAX_VALUE)]"
  have mn: "length (foldl (map2 Math_min) ?m (lift rss)) = 3 \<and>
      (\<forall>j < 3. foldl (map2 Math_min) ?m (lift rss) ! j = foldl Math_min (?m ! j) (column j (lift rss)))"
    using rl by (intro foldl_map2_axis) simp_all
  have "\<forall>j < 3. foldl (map2 Math_min) ?m (lift rss) ! j = Fin (Min (set (column j rss)))"
  proof (intro allI impI)
    fix j :: nat
    assume j: "j < 3"
    then have "?m ! j = Fin MAX_VALUE" by (auto simp: less_Suc_eq numeral_3_eq_3)
    moreover have "\<forall>c \<in> set (column j rss). c \<le> MAX_VALUE"
      using column_facts(2) [OF assms(1) j] assms(2) by fastforce
    ultimately show "foldl (map2 Math_min) ?m (lift rss) ! j = Fin (Min (set (column j rss)))"
      using mn j column_lift [OF assms(1) j] column_facts(1) [OF assms(1) j]
      by (simp add: foldl_Math_min_MAX)
  qed
  with mn have "foldl (map2 Math_min) ?m (lift rss) =
      [Fin (Min (set (column 0 rss))), Fin (Min (set (column 1 rss))), Fin (Min (set (column 2 rss)))]"
    by (intro list3_eqI) simp_all
  then show "foldl (map2 Math_min) ?m (lift rss) = bbox_min (lift rss)"
    using bbox_lift(1) [OF assms(1)] by simp
  have mx: "length (foldl (map2 Math_max) ?M (lift rss)) = 3 \<and>
      (\<forall>j < 3. foldl (map2 Math_max) ?M (lift rss) ! j = foldl Math_max (?M ! j) (column j (lift rss)))"
    using rl by (intro foldl_map2_axis) simp_all
  have "\<forall>j < 3. foldl (map2 Math_max) ?M (lift rss) ! j = Fin (Max (set (column j rss)))"
  proof (intro allI impI)
    fix j :: nat
    assume j: "j < 3"
    then have "?M ! j = Fin (- MAX_VALUE)" by (auto simp: less_Suc_eq numeral_3_eq_3)
    moreover have "\<forall>c \<in> set (column j rss). - MAX_VALUE \<le> c"
      using column_facts(2) [OF assms(1) j] assms(2) by fastforce
    ultimately show "foldl (map2 Math_max) ?M (lift rss) ! j = Fin (Max (set (column j rss)))"
      using mx j column_lift [OF assms(1) j] column_facts(1) [OF assms(1) j]
      by (simp add: foldl_Math_max_MAX)
  qed
  with mx have "foldl (map2 Math_max) ?M (lift rss) =
      [Fin (Max (set (column 0 rss))), Fin (Max (set (column 1 rss))), Fin (Max (set (column 2 rss)))]"
    by (intro list3_eqI) simp_all
  then show "foldl (map2 Math_max) ?M (lift rss) = bbox_max (lift rss)"
    using bbox_lift(2) [OF assms(1)] by simp
qed

lemma MAX_VALUE_pos: "0 < MAX_VALUE"
  using MAX_VALUE_large by (simp add: less_trans [of 0 "2 ^ 64"])

















lemma lift_the_fin:
  assumes "vs \<noteq> []"
    and "\<forall>v \<in> set vs. length v = 3 \<and> (\<forall>c \<in> set v. \<exists>r. c = Fin r \<and> \<bar>r\<bar> \<le> B)"
  shows "vs = lift (map (map the_fin) vs) \<and> finite_mesh B (map (map the_fin) vs)"
proof -
  have "map Fin (map the_fin v) = v \<and> (\<forall>c \<in> set (map the_fin v). \<bar>c\<bar> \<le> B)"
    if "v \<in> set vs" for v
  proof -
    from assms(2) that have "\<forall>c \<in> set v. \<exists>r. c = Fin r \<and> \<bar>r\<bar> \<le> B" by blast
    then have "\<forall>c \<in> set v. Fin (the_fin c) = c \<and> \<bar>the_fin c\<bar> \<le> B"
      by (auto simp: the_fin_def)
    then show ?thesis by (simp add: map_idI)
  qed
  then have "lift (map (map the_fin) vs) = vs"
    by (simp add: lift_def map_idI)
  moreover have "finite_mesh B (map (map the_fin) vs)"
    using assms \<open>\<And>v. v \<in> set vs \<Longrightarrow> _\<close> by (auto simp: finite_mesh_def)
  ultimately show ?thesis by simp
qed

lemma parsed_vertices_length: "v \<in> set (parsed_vertices ls) \<Longrightarrow> length v = 3"
  by (auto simp: parsed_vertices_def parseVertex_def Let_def)

lemma load_state:
  assumes "load_lines (lines_of contents) initial_state = Inr st"
  shows "vertices st = parsed_vertices (lines_of contents)"
    and "minExtent st = foldl (map2 Math_min) [Fin MAX_VALUE, Fin MAX_VALUE, Fin MAX_VALUE]
           (parsed_vertices (lines_of contents))"
    and "maxExtent st = foldl (map2 Math_max) [Fin (- MAX_VALUE), Fin (- MAX_VALUE), Fin (- MAX_VALUE)]
           (parsed_vertices (lines_of contents))"
    and "load contents = Inr (concat (normalize st), indices st)"
  using load_lines_Inr [OF assms] assms
  by (simp_all add: initial_state_def load_def lines_of_def)


lemma to_number_range: "to_number v = Fin r \<Longrightarrow> \<bar>r\<bar> \<le> MAX_VALUE"
  using MAX_VALUE_less_threshold MAX_VALUE_large
  by (auto simp: to_number_def split: if_splits)

lemma parseFloat_range: "parseFloat s = Fin r \<Longrightarrow> \<bar>r\<bar> \<le> MAX_VALUE"
  by (auto simp: parseFloat_def Let_def split: prod.splits if_splits dest: to_number_range)

lemma parsed_vertices_range:
  "v \<in> set (parsed_vertices ls) \<Longrightarrow> Fin r \<in> set v \<Longrightarrow> \<bar>r\<bar> \<le> MAX_VALUE"
  by (auto simp: parsed_vertices_def parseVertex_def Let_def dest: parseFloat_range [OF sym])







lemma single_point_extents:
  assumes st: "load_lines (lines_of contents) initial_state = Inr st"
    and ne: "vertices st \<noteq> []"
    and pt: "\<forall>v \<in> set (vertices st). v = [Fin x, Fin y, Fin z]"
  shows "minExtent st = [Fin x, Fin y, Fin z]" and "maxExtent st = [Fin x, Fin y, Fin z]"
proof -
  let ?vs = "parsed_vertices (lines_of contents)"
  let ?rss = "map (map the_fin) ?vs"
  note ls = load_state [OF st]
  have vs: "vertices st = ?vs" by (rule ls(1))
  have rng: "\<forall>v \<in> set ?vs. length v = 3 \<and> (\<forall>c \<in> set v. \<exists>r. c = Fin r \<and> \<bar>r\<bar> \<le> MAX_VALUE)"
  proof (intro ballI conjI)
    fix v c
    assume v: "v \<in> set ?vs"
    then show "length v = 3" by (rule parsed_vertices_length)
    assume c: "c \<in> set v"
    from v pt vs have "v = [Fin x, Fin y, Fin z]" by simp
    with c obtain r where r: "c = Fin r" by auto
    with v c have "\<bar>r\<bar> \<le> MAX_VALUE" using parsed_vertices_range by blast
    with r show "\<exists>r. c = Fin r \<and> \<bar>r\<bar> \<le> MAX_VALUE" by blast
  qed
  from ne vs have ne': "?vs \<noteq> []" by simp
  from lift_the_fin [OF ne' rng] have
    l: "?vs = lift ?rss" and fm: "finite_mesh MAX_VALUE ?rss" by simp_all
  have rows: "\<forall>r \<in> set ?rss. r = [x, y, z]"
    using pt vs by (auto simp: the_fin_def)
  have col: "set (column j ?rss) = {[x, y, z] ! j}" if "j < 3" for j
  proof -
    have "column j ?rss \<noteq> []" using column_facts(1) [OF fm that] .
    moreover have "\<forall>c \<in> set (column j ?rss). c = [x, y, z] ! j"
      using rows by (auto simp: column_def)
    ultimately show ?thesis by (cases "column j ?rss") auto
  qed
  have "bbox_min (lift ?rss) = [Fin x, Fin y, Fin z]"
    using bbox_lift(1) [OF fm] col [of 0] col [of 1] col [of 2] by simp
  then show "minExtent st = [Fin x, Fin y, Fin z]"
    using ls(2) code_extents_lift(1) [OF fm order_refl] l by simp
  have "bbox_max (lift ?rss) = [Fin x, Fin y, Fin z]"
    using bbox_lift(2) [OF fm] col [of 0] col [of 1] col [of 2] by simp
  then show "maxExtent st = [Fin x, Fin y, Fin z]"
    using ls(3) code_extents_lift(2) [OF fm order_refl] l by simp
qed

lemma to_number_twice_MAX: "to_number (- (2 * MAX_VALUE)) = NInf"
  using to_number_initial_extent by simp

lemma to_number_0: "to_number 0 = Fin 0"
  using MAX_VALUE_pos by (intro to_number_exact) simp

text \<open>
  Claim C9. For a file none of whose face records has an unsupported number of references,
  \<open>load\<close> returns, and its result is \<open>normalize\<close> of the state the loop ends in: there is
  no other branch. When all vertex records give the same finite point, the divisor
  \<open>largest_extent\<close> is 0, the scale is \<open>2 / 0 = Infinity\<close>, and every coordinate is still
  sent through \<open>(coordinate + offset) * scale\<close>. When there is no vertex record, the divisor
  is \<open>-MAX_VALUE - MAX_VALUE = -Infinity\<close> and the scale is 0.
\<close>

theorem load_divides_by_degenerate_extent:
  assumes "\<forall>l \<in> set (lines_of contents).
      face_record l \<longrightarrow> length (face_refs l) = 3 \<or> length (face_refs l) = 4"
  shows "\<exists>st. load_lines (lines_of contents) initial_state = Inr st \<and>
      load contents = Inr (concat (normalize st), indices st) \<and>
      vertices st = parsed_vertices (lines_of contents) \<and>
      (vertices st \<noteq> [] \<and> (\<forall>v \<in> set (vertices st). v = [Fin x, Fin y, Fin z]) \<longrightarrow>
         largest_extent st = Fin 0 \<and> scale_of st = PInf \<and>
         normalize st =
           map (\<lambda>v. map2 (\<lambda>c off. num_mul (num_add c off) PInf) v (offset_of st)) (vertices st)) \<and>
      (vertices st = [] \<longrightarrow>
         largest_extent st = NInf \<and> scale_of st = Fin 0 \<and> load contents = Inr ([], indices st))"
proof -
  from load_lines_good_faces [OF assms] obtain st where
    st: "load_lines (lines_of contents) initial_state = Inr st" by blast
  note ls = load_state [OF st]
  have point: "largest_extent st = Fin 0 \<and> scale_of st = PInf \<and>
      normalize st =
        map (\<lambda>v. map2 (\<lambda>c off. num_mul (num_add c off) PInf) v (offset_of st)) (vertices st)"
    if "vertices st \<noteq> []" and "\<forall>v \<in> set (vertices st). v = [Fin x, Fin y, Fin z]"
  proof -
    note e = single_point_extents [OF st that]
    have le: "largest_extent st = Fin 0"
      by (simp add: largest_extent_def extents_def e num_sub_def to_number_0 Math_max3_def)
    then have sc: "scale_of st = PInf" by (simp add: scale_of_def)
    then show ?thesis using le by (simp add: normalize_def)
  qed
  have empty: "largest_extent st = NInf \<and> scale_of st = Fin 0 \<and>
      load contents = Inr ([], indices st)" if "vertices st = []"
  proof -
    from that ls(1) have "parsed_vertices (lines_of contents) = []" by simp
    with ls(2,3) have
      "minExtent st = [Fin MAX_VALUE, Fin MAX_VALUE, Fin MAX_VALUE]"
      "maxExtent st = [Fin (- MAX_VALUE), Fin (- MAX_VALUE), Fin (- MAX_VALUE)]"
      by simp_all
    then have le: "largest_extent st = NInf"
      by (simp add: largest_extent_def extents_def num_sub_def to_number_twice_MAX
          Math_max3_def)
    then have "scale_of st = Fin 0" by (simp add: scale_of_def)
    moreover have "normalize st = []" using that by (simp add: normalize_def)
    ultimately show ?thesis using le ls(4) by simp
  qed
  from st ls(1,4) point empty show ?thesis by blast
qed

theorem load_divides_by_degenerate_extent_witness:
  "(\<exists>st. load_lines (lines_of (''v 1 1 1'' @ [CHR 0x0A] @ ''v 1 1 1'' @ [CHR 0x0A] @ ''f 1 2 2''))
        initial_state = Inr st \<and>
      vertices st = [[Fin 1, Fin 1, Fin 1], [Fin 1, Fin 1, Fin 1]] \<and>
      largest_extent st = Fin 0 \<and> scale_of st = PInf) \<and>
   load (''v 1 1 1'' @ [CHR 0x0A] @ ''v 1 1 1'' @ [CHR 0x0A] @ ''f 1 2 2'') =
     Inr ([NaN, NaN, NaN, NaN, NaN, NaN], [Fin 0, Fin 1, Fin 1]) \<and>
   (\<exists>st. load_lines (lines_of ''f 1 2 3'') initial_state = Inr st \<and>
      vertices st = [] \<and> largest_extent st = NInf \<and> scale_of st = Fin 0) \<and>
   load ''f 1 2 3'' = Inr ([], [Fin 0, Fin 1, Fin 2])"
proof -
  let ?file = "''v 1 1 1'' @ [CHR 0x0A] @ ''v 1 1 1'' @ [CHR 0x0A] @ ''f 1 2 2''"
  have ls: "lines_of ?file = [''v 1 1 1'', ''v 1 1 1'', ''f 1 2 2'']" by code_simp
  have vr: "filter vertex_record [''v 1 1 1'', ''v 1 1 1'', ''f 1 2 2''] =
      [''v 1 1 1'', ''v 1 1 1'']"
    by code_simp
  have "parsed_vertices (lines_of ?file) =
      map (\<lambda>l. parseVertex (trim l)) [''v 1 1 1'', ''v 1 1 1'']"
    by (simp only: parsed_vertices_def ls vr)
  then have pv: "parsed_vertices (lines_of ?file) = [[Fin 1, Fin 1, Fin 1], [Fin 1, Fin 1, Fin 1]]"
    by (simp add: load_eval number_eval)
  have faces: "\<forall>l \<in> set (lines_of ?file).
      face_record l \<longrightarrow> length (face_refs l) = 3 \<or> length (face_refs l) = 4"
    by code_simp
  from load_divides_by_degenerate_extent [OF faces, of 1 1 1] obtain st where
    st: "load_lines (lines_of ?file) initial_state = Inr st" and
    vs: "vertices st = parsed_vertices (lines_of ?file)" and
    point: "vertices st \<noteq> [] \<and> (\<forall>v \<in> set (vertices st). v = [Fin 1, Fin 1, Fin 1]) \<longrightarrow>
      largest_extent st = Fin 0 \<and> scale_of st = PInf \<and>
      normalize st =
        map (\<lambda>v. map2 (\<lambda>c off. num_mul (num_add c off) PInf) v (offset_of st)) (vertices st)"
    by blast
  from vs have v: "vertices st = [[Fin 1, Fin 1, Fin 1], [Fin 1, Fin 1, Fin 1]]"
    by (simp only: pv)
  then have "vertices st \<noteq> [] \<and> (\<forall>v \<in> set (vertices st). v = [Fin 1, Fin 1, Fin 1])"
    by simp
  with point have "largest_extent st = Fin 0" and "scale_of st = PInf" by blast+
  with st v have a: "\<exists>st. load_lines (lines_of ?file) initial_state = Inr st \<and>
      vertices st = [[Fin 1, Fin 1, Fin 1], [Fin 1, Fin 1, Fin 1]] \<and>
      largest_extent st = Fin 0 \<and> scale_of st = PInf"
    by (intro exI [of _ st] conjI)
  have b: "load ?file = Inr ([NaN, NaN, NaN, NaN, NaN, NaN], [Fin 0, Fin 1, Fin 1])"
    by (simp add: load_eval number_eval)
  have faces': "\<forall>l \<in> set (lines_of ''f 1 2 3'').
      face_record l \<longrightarrow> length (face_refs l) = 3 \<or> length (face_refs l) = 4"
    by code_simp
  have pv': "parsed_vertices (lines_of ''f 1 2 3'') = []" by code_simp
  from load_divides_by_degenerate_extent [OF faces', of 0 0 0] obtain st' where
    st': "load_lines (lines_of ''f 1 2 3'') initial_state = Inr st'" and
    vs': "vertices st' = parsed_vertices (lines_of ''f 1 2 3'')" and
    empty: "vertices st' = [] \<longrightarrow>
      largest_extent st' = NInf \<and> scale_of st' = Fin 0 \<and>
      load ''f 1 2 3'' = Inr ([], indices st')"
    by blast
  from vs' have v': "vertices st' = []" by (simp only: pv')
  with empty have "largest_extent st' = NInf" and "scale_of st' = Fin 0" by blast+
  with st' v' have c: "\<exists>st. load_lines (lines_of ''f 1 2 3'') initial_state = Inr st \<and>
      vertices st = [] \<and> largest_extent st = NInf \<and> scale_of st = Fin 0"
    by (intro exI [of _ st'] conjI)
  have d: "load ''f 1 2 3'' = Inr ([], [Fin 0, Fin 1, Fin 2])"
    by (simp add: load_eval number_eval)
  from a b c d show ?thesis by (intro conjI)
qed


section \<open>Properties of the scene graph\<close>

subsection \<open>Traversals\<close>

lemma height_child: "t \<in> set ts \<Longrightarrow> height t \<le> foldr max (map height ts) 0"
  by (induction ts) auto

lemma height_le_length: "height T \<le> length (preorder T)"
proof (induction T)
  case (AT a ts)
  have "foldr max (map height ts) 0 \<le> length (concat (map preorder ts))"
    using AT
  proof (induction ts)
    case Nil
    then show ?case by simp
  next
    case (Cons t ts)
    then have "height t \<le> length (preorder t)"
      and "foldr max (map height ts) 0 \<le> length (concat (map preorder ts))"
      by simp_all
    then show ?case by simp
  qed
  then show ?case by simp
qed

lemma shape_bounds: "shape h p T \<Longrightarrow> x \<in> set (preorder T) \<Longrightarrow> x < length h"
  by (induction T arbitrary: p) auto

lemma distinct_bounded_length:
  assumes "distinct xs" and "\<forall>x \<in> set xs. x < (n::nat)"
  shows "length xs \<le> n"
proof -
  have "card (set xs) \<le> card {..<n}"
    using assms(2) by (intro card_mono) auto
  with assms(1) show ?thesis by (simp add: distinct_card)
qed

lemma is_tree_height: "is_tree h T \<Longrightarrow> height T \<le> length h"
proof -
  assume t: "is_tree h T"
  then have "length (preorder T) \<le> length h"
    by (intro distinct_bounded_length) (auto simp: is_tree_def dest: shape_bounds)
  with height_le_length [of T] show ?thesis by simp
qed

lemma getNodes_rec_shape:
  "shape h p T \<Longrightarrow> height T \<le> k \<Longrightarrow> getNodes_rec k h (root_of T) nodes = Inr (nodes @ preorder T)"
proof (induction T arbitrary: p k nodes)
  case (AT a ts)
  from AT.prems obtain k' where k: "k = Suc k'" and k': "foldr max (map height ts) 0 \<le> k'"
    by (cases k) auto
  have loop: "getNodes_children k' h (map root_of us) acc = Inr (acc @ concat (map preorder us))"
    if "set us \<subseteq> set ts" for us acc
    using that
  proof (induction us arbitrary: acc)
    case Nil
    then show ?case by simp
  next
    case (Cons u us)
    then have u: "u \<in> set ts" by simp
    with AT.prems have "shape h (Some a) u" by simp
    moreover have "height u \<le> k'" using height_child [OF u] k' by simp
    ultimately have "getNodes_rec k' h (root_of u) acc = Inr (acc @ preorder u)"
      using AT.IH [OF u] by blast
    with Cons show ?case by simp
  qed
  from AT.prems have "children (h ! a) = map root_of ts" by simp
  with loop [of ts "nodes @ [a]"] k show ?case by simp
qed

lemma find_append_first:
  "find P (xs @ ys) = (case find P xs of None \<Rightarrow> find P ys | Some x \<Rightarrow> Some x)"
  by (induction xs) auto

lemma getNode_rec_shape:
  "shape h p T \<Longrightarrow> height T \<le> k \<Longrightarrow>
   getNode_rec k h (root_of T) nm = Inr (find (\<lambda>x. name (h ! x) = nm) (preorder T))"
proof (induction T arbitrary: p k)
  case (AT a ts)
  from AT.prems obtain k' where k: "k = Suc k'" and k': "foldr max (map height ts) 0 \<le> k'"
    by (cases k) auto
  have loop: "getNode_children k' h (map root_of us) nm =
      Inr (find (\<lambda>x. name (h ! x) = nm) (concat (map preorder us)))"
    if "set us \<subseteq> set ts" for us
    using that
  proof (induction us)
    case Nil
    then show ?case by simp
  next
    case (Cons u us)
    then have u: "u \<in> set ts" by simp
    with AT.prems have "shape h (Some a) u" by simp
    moreover have "height u \<le> k'" using height_child [OF u] k' by simp
    ultimately have "getNode_rec k' h (root_of u) nm = Inr (find (\<lambda>x. name (h ! x) = nm) (preorder u))"
      using AT.IH [OF u] by blast
    with Cons show ?case by (simp add: find_append_first split: option.splits)
  qed
  from AT.prems have "children (h ! a) = map root_of ts" by simp
  with loop [of ts] k show ?case by simp
qed

lemma length_preorder: "length (preorder T) = node_count T"
proof (induction T)
  case (AT a ts)
  then have "map (\<lambda>t. length (preorder t)) ts = map node_count ts" by simp
  then have "sum_list (map (\<lambda>t. length (preorder t)) ts) = sum_list (map node_count ts)"
    by (rule arg_cong)
  then show ?case by (simp add: length_concat comp_def)
qed

lemma root_in_preorder: "root_of T \<in> set (preorder T)"
  by (cases T) simp

lemma before_append_notin: "a \<notin> set xs \<Longrightarrow> before (xs @ ys) a b = before ys a b"
  by (induction xs) (auto simp: before_def)

lemma before_in_append: "a \<in> set xs \<Longrightarrow> b \<in> set ys \<Longrightarrow> before (xs @ ys) a b"
proof -
  assume a: "a \<in> set xs" and b: "b \<in> set ys"
  then have "dropWhile (\<lambda>x. x \<noteq> a) (xs @ ys) = dropWhile (\<lambda>x. x \<noteq> a) xs @ ys"
    by (intro dropWhile_append1 [of a]) simp_all
  moreover from a have "dropWhile (\<lambda>x. x \<noteq> a) xs \<noteq> []" by (auto simp: dropWhile_eq_Nil_conv)
  ultimately show ?thesis using b by (cases "dropWhile (\<lambda>x. x \<noteq> a) xs") (simp_all add: before_def)
qed

lemma before_append_in: "a \<in> set xs \<Longrightarrow> before xs a b \<Longrightarrow> before (xs @ ys) a b"
proof -
  assume a: "a \<in> set xs" and b: "before xs a b"
  then have "dropWhile (\<lambda>x. x \<noteq> a) (xs @ ys) = dropWhile (\<lambda>x. x \<noteq> a) xs @ ys"
    by (intro dropWhile_append1 [of a]) simp_all
  moreover from a have "dropWhile (\<lambda>x. x \<noteq> a) xs \<noteq> []" by (auto simp: dropWhile_eq_Nil_conv)
  ultimately show ?thesis using b by (cases "dropWhile (\<lambda>x. x \<noteq> a) xs") (simp_all add: before_def)
qed

lemma before_embedded:
  "a \<notin> set xs \<Longrightarrow> a \<in> set ys \<Longrightarrow> before ys a b \<Longrightarrow> before (xs @ ys @ zs) a b"
  by (simp add: before_append_notin before_append_in)

lemma children_in_preorder:
  "shape h p T \<Longrightarrow> a \<in> set (preorder T) \<Longrightarrow> c \<in> set (children (h ! a)) \<Longrightarrow>
   c \<in> set (preorder T)"
proof (induction T arbitrary: p)
  case (AT r ts)
  show ?case
  proof (cases "a = r")
    case True
    with AT.prems(1,3) obtain t where "t \<in> set ts" and "c = root_of t" by auto
    then show ?thesis using root_in_preorder [of t] by auto
  next
    case False
    with AT.prems(2) obtain t where t: "t \<in> set ts" and at: "a \<in> set (preorder t)" by auto
    have "shape h (Some r) t" using AT.prems(1) t by simp
    from AT.IH [OF t this at AT.prems(3)] t show ?thesis by auto
  qed
qed

lemma parent_before_child:
  "shape h p T \<Longrightarrow> distinct (preorder T) \<Longrightarrow> a \<in> set (preorder T) \<Longrightarrow>
   c \<in> set (children (h ! a)) \<Longrightarrow> before (preorder T) a c"
proof (induction T arbitrary: p)
  case (AT r ts)
  show ?case
  proof (cases "a = r")
    case True
    with AT.prems(1,4) obtain t where "t \<in> set ts" and "c = root_of t" by auto
    then have "c \<in> set (concat (map preorder ts))" using root_in_preorder [of t] by auto
    with True show ?thesis by (simp add: before_def)
  next
    case False
    with AT.prems(3) obtain t where t: "t \<in> set ts" and at: "a \<in> set (preorder t)" by auto
    from split_list [OF t] obtain us1 us2 where ts: "ts = us1 @ t # us2" by blast
    have st: "shape h (Some r) t" using AT.prems(1) t by simp
    have dt: "distinct (preorder t)" using AT.prems(2) ts by simp
    from AT.IH [OF t st dt at AT.prems(4)] have b: "before (preorder t) a c" .
    have n: "a \<notin> set (r # concat (map preorder us1))"
      using AT.prems(2) ts at False by auto
    have "preorder (AT r ts) =
        (r # concat (map preorder us1)) @ preorder t @ concat (map preorder us2)"
      using ts by simp
    with before_embedded [OF n at b] show ?thesis by simp
  qed
qed

lemma children_in_order:
  "shape h p T \<Longrightarrow> distinct (preorder T) \<Longrightarrow> a \<in> set (preorder T) \<Longrightarrow>
   i < j \<Longrightarrow> j < length (children (h ! a)) \<Longrightarrow>
   before (preorder T) (children (h ! a) ! i) (children (h ! a) ! j)"
proof (induction T arbitrary: p)
  case (AT r ts)
  show ?case
  proof (cases "a = r")
    case True
    with AT.prems have kids: "children (h ! a) = map root_of ts" and j: "j < length ts" by simp_all
    let ?init = "concat (map preorder (take j ts))" and ?tail = "concat (map preorder (drop j ts))"
    have i: "i < length (take j ts)" using AT.prems(4) j by simp
    have "take j ts ! i \<in> set (take j ts)" using i by (rule nth_mem)
    then have ti: "ts ! i \<in> set (take j ts)" using AT.prems(4) by simp
    then have f: "root_of (ts ! i) \<in> set ?init"
      using root_in_preorder [of "ts ! i"] by auto
    have "drop j ts = ts ! j # drop (Suc j) ts" using j by (simp add: Cons_nth_drop_Suc)
    then have bk: "root_of (ts ! j) \<in> set ?tail" using root_in_preorder [of "ts ! j"] by simp
    have "concat (map preorder ts) = ?init @ ?tail"
      by (metis append_take_drop_id concat_append map_append)
    with before_in_append [OF f bk]
    have "before (concat (map preorder ts)) (root_of (ts ! i)) (root_of (ts ! j))" by simp
    moreover have "root_of (ts ! i) \<noteq> r"
    proof -
      from ti have "ts ! i \<in> set ts" by (rule in_set_takeD)
      then have "root_of (ts ! i) \<in> set (concat (map preorder ts))"
        using root_in_preorder [of "ts ! i"] by auto
      with AT.prems(2) show ?thesis by auto
    qed
    ultimately have "before (r # concat (map preorder ts)) (root_of (ts ! i)) (root_of (ts ! j))"
      using before_append_notin [of "root_of (ts ! i)" "[r]"] by simp
    with kids j AT.prems(4) show ?thesis by simp
  next
    case False
    with AT.prems(3) obtain t where t: "t \<in> set ts" and at: "a \<in> set (preorder t)" by auto
    from split_list [OF t] obtain us1 us2 where ts: "ts = us1 @ t # us2" by blast
    have st: "shape h (Some r) t" using AT.prems(1) t by simp
    have dt: "distinct (preorder t)" using AT.prems(2) ts by simp
    from AT.IH [OF t st dt at AT.prems(4,5)]
    have b: "before (preorder t) (children (h ! a) ! i) (children (h ! a) ! j)" .
    have "children (h ! a) ! i \<in> set (children (h ! a))"
      using AT.prems(4,5) by simp
    with st at have kid: "children (h ! a) ! i \<in> set (preorder t)"
      by (rule children_in_preorder)
    have n: "children (h ! a) ! i \<notin> set (r # concat (map preorder us1))"
      using AT.prems(2) ts kid by auto
    have "preorder (AT r ts) =
        (r # concat (map preorder us1)) @ preorder t @ concat (map preorder us2)"
      using ts by simp
    with before_embedded [OF n kid b] show ?thesis by simp
  qed
qed

subsection \<open>Setting a transformation\<close>

lemma same_links_refl: "same_links h h"
  by (simp add: same_links_def)

lemma same_links_trans: "same_links h g \<Longrightarrow> same_links g f \<Longrightarrow> same_links h f"
  by (simp add: same_links_def)

lemma shape_same_links: "same_links h g \<Longrightarrow> shape h p T \<Longrightarrow> shape g p T"
  by (induction T arbitrary: p) (auto simp: same_links_def)

lemma linked_same_links: "same_links h g \<Longrightarrow> linked h a chain \<Longrightarrow> linked g a chain"
  by (induction chain arbitrary: a) (auto simp: same_links_def)

lemma locals_same_links: "same_links h g \<Longrightarrow> locals g xs = locals h xs"
  by (simp add: locals_def same_links_def)

lemma worlds_ok_frame:
  "\<forall>x \<in> set (preorder T). g ! x = h ! x \<Longrightarrow> worlds_ok h anc T \<Longrightarrow> worlds_ok g anc T"
  by (induction T arbitrary: anc) auto

lemma renderables_ok_frame:
  "\<forall>x \<in> set (preorder T). g ! x = h ! x \<Longrightarrow> renderables_ok h T \<Longrightarrow> renderables_ok g T"
  by (simp add: renderables_ok_def)

lemma push_world_props:
  assumes "a < length h"
  shows "same_links h (push_world h a w)"
    and "\<And>x. x \<noteq> a \<Longrightarrow> push_world h a w ! x = h ! x"
    and "world_transformation (push_world h a w ! a) = w"
    and "renderable_ok (push_world h a w ! a)"
  using assms
  by (auto simp: push_world_def same_links_def renderable_ok_def Let_def nth_list_update
      split: option.splits)

lemma setTransformation_rec_Suc:
  "setTransformation_rec (Suc k) h a t =
     (case setTransformation_children k (h[a := (h ! a)\<lparr>transformation := t\<rparr>])
             (children ((h[a := (h ! a)\<lparr>transformation := t\<rparr>]) ! a)) of
        Inl e \<Rightarrow> Inl e
      | Inr h2 \<Rightarrow>
          (case calculateWorldTransformation h2 a of
             Inl e \<Rightarrow> Inl e
           | Inr w \<Rightarrow> Inr (push_world h2 a w)))"
  by (simp add: push_world_def Let_def split: sum.splits option.splits)

lemma hierarchy_linked:
  "linked h a chain \<Longrightarrow> length chain < k \<Longrightarrow>
   hierarchy k h a acc = Inr (acc @ locals h (a # chain))"
proof (induction chain arbitrary: a k acc)
  case Nil
  then obtain k' where "k = Suc k'" by (cases k) auto
  with Nil show ?case by (simp add: locals_def)
next
  case (Cons p ps)
  then obtain k' where k: "k = Suc k'" by (cases k) auto
  with Cons.prems have "linked h p ps" "length ps < k'" by simp_all
  from Cons.IH [OF this] Cons.prems k show ?case by (simp add: locals_def)
qed

lemma calculateWorldTransformation_linked:
  "linked h a chain \<Longrightarrow> length chain < length h \<Longrightarrow>
   calculateWorldTransformation h a =
     Inr (foldl (\<lambda>world transform. world * transform) 1
            (rev (locals h chain) @ [transformation (h ! a)]))"
  using hierarchy_linked [of h a chain "length h" "[]"]
  by (simp add: calculateWorldTransformation_def getTransformationHierarchy_def locals_def)

lemma update_same_transformation:
  "h[a := (h ! a)\<lparr>transformation := transformation (h ! a)\<rparr>] = h"
  by (simp add: list_update_same_conv)

lemma setTransformation_rec_subtree:
  "shape h p T \<Longrightarrow> linked h (root_of T) chain \<Longrightarrow> distinct (preorder T) \<Longrightarrow>
   height T + length chain \<le> length h \<Longrightarrow> height T \<le> k \<Longrightarrow>
   \<exists>h'. setTransformation_rec k h (root_of T) (transformation (h ! root_of T)) = Inr h' \<and>
        same_links h h' \<and> (\<forall>x. x \<notin> set (preorder T) \<longrightarrow> h' ! x = h ! x) \<and>
        worlds_ok h' (rev (locals h chain)) T \<and> renderables_ok h' T"
proof (induction T arbitrary: h p chain k)
  case (AT a ts)
  let ?anc = "rev (locals h chain) @ [transformation (h ! a)]"
  from AT.prems obtain k' where k: "k = Suc k'" and k': "foldr max (map height ts) 0 \<le> k'"
    by (cases k) auto
  from AT.prems have a: "a < length h" and la: "linked h a chain"
    and kids: "children (h ! a) = map root_of ts" by simp_all
  have loop:
    "\<exists>g'. setTransformation_children k' g (map root_of us) = Inr g' \<and> same_links g g' \<and>
          (\<forall>x. x \<notin> set (concat (map preorder us)) \<longrightarrow> g' ! x = g ! x) \<and>
          (\<forall>u \<in> set us. worlds_ok g' ?anc u \<and> renderables_ok g' u)"
    if "set us \<subseteq> set ts" and "distinct (concat (map preorder us))" and "same_links h g"
    for us g
    using that
  proof (induction us arbitrary: g)
    case Nil
    then show ?case by (simp add: same_links_refl)
  next
    case (Cons u us)
    then have u: "u \<in> set ts" by simp
    have su: "shape g (Some a) u"
      using AT.prems(1) u Cons.prems(3) by (auto intro: shape_same_links)
    have lu: "linked g (root_of u) (a # chain)"
    proof -
      from su have "parent (g ! root_of u) = Some a" by (cases u) simp
      moreover have "linked g a chain" using la Cons.prems(3) by (rule linked_same_links [rotated])
      ultimately show ?thesis by simp
    qed
    have du: "distinct (preorder u)" using Cons.prems(2) by simp
    have hu: "height u \<le> k'" using height_child [OF u] k' by simp
    have lg: "length g = length h" using Cons.prems(3) by (simp add: same_links_def)
    have bu: "height u + length (a # chain) \<le> length g"
      using height_child [OF u] AT.prems(4) lg by simp
    from AT.IH [OF u su lu du bu hu] obtain g1 where
      r1: "setTransformation_rec k' g (root_of u) (transformation (g ! root_of u)) = Inr g1" and
      s1: "same_links g g1" and
      f1: "\<forall>x. x \<notin> set (preorder u) \<longrightarrow> g1 ! x = g ! x" and
      w1: "worlds_ok g1 (rev (locals g (a # chain))) u" and
      o1: "renderables_ok g1 u"
      by blast
    have anc: "rev (locals g (a # chain)) = ?anc"
      using locals_same_links [OF Cons.prems(3), of "a # chain"] by (simp add: locals_def)
    have "set us \<subseteq> set ts" and "distinct (concat (map preorder us))"
      using Cons.prems by simp_all
    moreover have "same_links h g1" using Cons.prems(3) s1 by (rule same_links_trans)
    ultimately obtain g' where
      r2: "setTransformation_children k' g1 (map root_of us) = Inr g'" and
      s2: "same_links g1 g'" and
      f2: "\<forall>x. x \<notin> set (concat (map preorder us)) \<longrightarrow> g' ! x = g1 ! x" and
      w2: "\<forall>v \<in> set us. worlds_ok g' ?anc v \<and> renderables_ok g' v"
      using Cons.IH by blast
    have keep: "\<forall>x \<in> set (preorder u). g' ! x = g1 ! x"
      using f2 Cons.prems(2) by auto
    have "worlds_ok g' ?anc u" using worlds_ok_frame [OF keep] w1 anc by simp
    moreover have "renderables_ok g' u" using renderables_ok_frame [OF keep o1] .
    moreover have "same_links g g'" using s1 s2 by (rule same_links_trans)
    moreover have "\<forall>x. x \<notin> set (concat (map preorder (u # us))) \<longrightarrow> g' ! x = g ! x"
      using f1 f2 by simp
    moreover have "setTransformation_children k' g (map root_of (u # us)) = Inr g'"
      using r1 r2 by simp
    ultimately show ?case using w2 by auto
  qed
  have "distinct (concat (map preorder ts))" using AT.prems(3) by simp
  with loop [of ts h] obtain h2 where
    r2: "setTransformation_children k' h (map root_of ts) = Inr h2" and
    s2: "same_links h h2" and
    f2: "\<forall>x. x \<notin> set (concat (map preorder ts)) \<longrightarrow> h2 ! x = h ! x" and
    w2: "\<forall>u \<in> set ts. worlds_ok h2 ?anc u \<and> renderables_ok h2 u"
    by (auto simp: same_links_refl)
  have l2: "length h2 = length h" using s2 by (simp add: same_links_def)
  have t2: "transformation (h2 ! a) = transformation (h ! a)" using s2 by (simp add: same_links_def)
  have "linked h2 a chain" using s2 la by (rule linked_same_links)
  moreover have "length chain < length h2" using AT.prems(4) l2 by simp
  ultimately have cw: "calculateWorldTransformation h2 a =
      Inr (foldl (\<lambda>world transform. world * transform) 1 ?anc)"
    using calculateWorldTransformation_linked [of h2 a chain] locals_same_links [OF s2, of chain] t2
    by simp
  let ?w = "foldl (\<lambda>world transform. world * transform) 1 ?anc"
  let ?h' = "push_world h2 a ?w"
  have a2: "a < length h2" using a l2 by simp
  note pw = push_world_props [OF a2, where w = ?w]
  have res: "setTransformation_rec k h a (transformation (h ! a)) = Inr ?h'"
    using r2 cw kids by (simp add: k setTransformation_rec_Suc update_same_transformation
        del: setTransformation_rec.simps)
  have sl: "same_links h ?h'" using s2 pw(1) by (rule same_links_trans)
  have fr: "\<forall>x. x \<notin> set (preorder (AT a ts)) \<longrightarrow> ?h' ! x = h ! x"
    using f2 pw(2) by simp
  have notin: "a \<notin> set (concat (map preorder ts))" using AT.prems(3) by simp
  have keep: "\<forall>x \<in> set (preorder u). ?h' ! x = h2 ! x" if "u \<in> set ts" for u
  proof
    fix x
    assume "x \<in> set (preorder u)"
    with that notin have "x \<noteq> a" by auto
    then show "?h' ! x = h2 ! x" by (rule pw(2))
  qed
  have tl: "transformation (?h' ! a) = transformation (h ! a)"
    using sl by (simp add: same_links_def)
  have wk: "worlds_ok ?h' (rev (locals h chain)) (AT a ts)"
    using pw(3) tl w2 worlds_ok_frame [OF keep] by simp
  have ro: "renderables_ok ?h' (AT a ts)"
  proof -
    have "renderables_ok ?h' u" if "u \<in> set ts" for u
      using renderables_ok_frame [OF keep [OF that]] w2 that by simp
    then show ?thesis using pw(4) by (auto simp: renderables_ok_def)
  qed
  from res sl fr wk ro show ?case by simp
qed

lemma with_local_props:
  "length (with_local h a m) = length h"
  "parent (with_local h a m ! x) = parent (h ! x)"
  "children (with_local h a m ! x) = children (h ! x)"
  "x \<noteq> a \<Longrightarrow> with_local h a m ! x = h ! x"
  "a < length h \<Longrightarrow> transformation (with_local h a m ! a) = m"
  "a < length h \<Longrightarrow> world_transformation (with_local h a m ! a) = world_transformation (h ! a)"
proof -
  show "length (with_local h a m) = length h" by (simp add: with_local_def)
  show "parent (with_local h a m ! x) = parent (h ! x)"
    by (cases "a < length h"; cases "x = a") (simp_all add: with_local_def list_update_beyond)
  show "children (with_local h a m ! x) = children (h ! x)"
    by (cases "a < length h"; cases "x = a") (simp_all add: with_local_def list_update_beyond)
  show "x \<noteq> a \<Longrightarrow> with_local h a m ! x = h ! x" by (simp add: with_local_def)
  show "a < length h \<Longrightarrow> transformation (with_local h a m ! a) = m"
    by (simp add: with_local_def)
  show "a < length h \<Longrightarrow> world_transformation (with_local h a m ! a) = world_transformation (h ! a)"
    by (simp add: with_local_def)
qed

lemma shape_same_parents:
  "length g = length h \<Longrightarrow> \<forall>x. parent (g ! x) = parent (h ! x) \<and> children (g ! x) = children (h ! x) \<Longrightarrow>
   shape h p T \<Longrightarrow> shape g p T"
  by (induction T arbitrary: p) auto

lemma linked_same_parents:
  "\<forall>x. parent (g ! x) = parent (h ! x) \<Longrightarrow> linked h a chain \<Longrightarrow> linked g a chain"
  by (induction chain arbitrary: a) auto

lemma setTransformation_with_local:
  assumes "a < length h"
  shows "setTransformation h a m =
     setTransformation_rec (length (with_local h a m)) (with_local h a m) a
       (transformation (with_local h a m ! a))"
proof -
  from assms obtain k where k: "length h = Suc k" by (cases "length h") auto
  have "(with_local h a m)[a := (with_local h a m ! a)\<lparr>transformation := m\<rparr>] = with_local h a m"
    using assms by (simp add: with_local_def)
  then show ?thesis
    using assms k
    by (simp add: setTransformation_def setTransformation_rec_Suc with_local_props
        del: setTransformation_rec.simps)
      (simp add: with_local_def)
qed

lemma setTransformation_subtree:
  assumes "shape h p T" and "linked h (root_of T) chain" and "distinct (preorder T)"
    and "height T + length chain \<le> length h"
  shows "\<exists>h'. setTransformation h (root_of T) m = Inr h' \<and>
        same_links (with_local h (root_of T) m) h' \<and>
        (\<forall>x. x \<notin> set (preorder T) \<longrightarrow> h' ! x = h ! x) \<and>
        worlds_ok h' (rev (locals h' chain)) T \<and> renderables_ok h' T"
proof -
  let ?a = "root_of T" and ?h1 = "with_local h (root_of T) m"
  have a: "?a < length h" using assms(1) by (cases T) simp
  have s1: "shape ?h1 p T"
    using assms(1) by (intro shape_same_parents [of ?h1 h]) (simp_all add: with_local_props)
  have l1: "linked ?h1 ?a chain"
    using assms(2) by (intro linked_same_parents [of ?h1 h]) (simp_all add: with_local_props)
  have b1: "height T + length chain \<le> length ?h1"
    using assms(4) by (simp add: with_local_props)
  then have k1: "height T \<le> length ?h1" by simp
  from setTransformation_rec_subtree [OF s1 l1 assms(3) b1 k1] obtain h' where
    r: "setTransformation_rec (length ?h1) ?h1 ?a (transformation (?h1 ! ?a)) = Inr h'" and
    s: "same_links ?h1 h'" and
    f: "\<forall>x. x \<notin> set (preorder T) \<longrightarrow> h' ! x = ?h1 ! x" and
    w: "worlds_ok h' (rev (locals ?h1 chain)) T" and
    o: "renderables_ok h' T"
    by blast
  have "?a \<in> set (preorder T)" by (cases T) simp
  then have "x \<noteq> ?a" if "x \<notin> set (preorder T)" for x
    using that by auto
  then have f': "\<forall>x. x \<notin> set (preorder T) \<longrightarrow> h' ! x = h ! x"
    using f by (simp add: with_local_props(4))
  have "locals h' chain = locals ?h1 chain" using s by (rule locals_same_links)
  with w have "worlds_ok h' (rev (locals h' chain)) T" by simp
  with r s f' o show ?thesis
    using setTransformation_with_local [OF a, of m] by simp
qed

lemma same_links_with_local:
  assumes "same_links (with_local h a m) h'"
  shows "length h' = length h"
    and "parent (h' ! x) = parent (h ! x)"
    and "children (h' ! x) = children (h ! x)"
    and "x \<noteq> a \<Longrightarrow> transformation (h' ! x) = transformation (h ! x)"
    and "a < length h \<Longrightarrow> transformation (h' ! a) = m"
  using assms by (simp_all add: same_links_def with_local_props)

lemma locals_Cons: "locals h (x # xs) = transformation (h ! x) # locals h xs"
  by (simp add: locals_def)

lemma setTransformation_in_tree:
  "shape h p T \<Longrightarrow> linked h (root_of T) chain \<Longrightarrow> distinct (preorder T) \<Longrightarrow>
   set chain \<inter> set (preorder T) = {} \<Longrightarrow> height T + length chain \<le> length h \<Longrightarrow>
   worlds_ok h (rev (locals h chain)) T \<Longrightarrow> a \<in> set (preorder T) \<Longrightarrow>
   \<exists>h'. setTransformation h a m = Inr h' \<and> same_links (with_local h a m) h' \<and>
        (\<forall>x. x \<notin> set (preorder T) \<longrightarrow> h' ! x = h ! x) \<and>
        worlds_ok h' (rev (locals h' chain)) T"
proof (induction T arbitrary: p chain)
  case (AT r ts)
  show ?case
  proof (cases "a = r")
    case True
    from setTransformation_subtree [OF AT.prems(1,2,3,5), of m] True
    show ?thesis by auto
  next
    case False
    with AT.prems(7) obtain t where t: "t \<in> set ts" and at: "a \<in> set (preorder t)" by auto
    from split_list [OF t] obtain us1 us2 where ts: "ts = us1 @ t # us2" by blast
    have st: "shape h (Some r) t" using AT.prems(1) t by simp
    then have "parent (h ! root_of t) = Some r" by (cases t) simp
    with AT.prems(2) have lt: "linked h (root_of t) (r # chain)" by simp
    have dt: "distinct (preorder t)" using AT.prems(3) ts by simp
    have rt: "r \<notin> set (preorder t)" using AT.prems(3) t by auto
    have ct: "set (r # chain) \<inter> set (preorder t) = {}"
      using AT.prems(4) rt t by auto
    have bt: "height t + length (r # chain) \<le> length h"
      using height_child [OF t] AT.prems(5) by simp
    have wt: "worlds_ok h (rev (locals h (r # chain))) t"
      using AT.prems(6) t by (simp add: locals_Cons)
    from AT.IH [OF t st lt dt ct bt wt at] obtain h' where
      r: "setTransformation h a m = Inr h'" and
      s: "same_links (with_local h a m) h'" and
      f: "\<forall>x. x \<notin> set (preorder t) \<longrightarrow> h' ! x = h ! x" and
      w: "worlds_ok h' (rev (locals h' (r # chain))) t"
      by blast
    have ac: "a \<notin> set chain" using AT.prems(4,7) by auto
    have lc: "locals h' chain = locals h chain"
    proof -
      have "transformation (h' ! x) = transformation (h ! x)" if "x \<in> set chain" for x
      proof -
        from that ac have "x \<noteq> a" by auto
        then show ?thesis by (rule same_links_with_local(4) [OF s])
      qed
      then show ?thesis by (simp add: locals_def)
    qed
    have "r \<noteq> a" using False by simp
    then have lr: "transformation (h' ! r) = transformation (h ! r)"
      by (rule same_links_with_local(4) [OF s])
    have wr: "world_transformation (h' ! r) = world_transformation (h ! r)"
      using f rt by simp
    have others: "worlds_ok h' (rev (locals h chain) @ [transformation (h ! r)]) u"
      if "u \<in> set us1 \<union> set us2" for u
    proof -
      have "set (preorder u) \<inter> set (preorder t) = {}"
        using that AT.prems(3) ts by auto
      then have "\<forall>x \<in> set (preorder u). h' ! x = h ! x" using f by auto
      moreover have "worlds_ok h (rev (locals h chain) @ [transformation (h ! r)]) u"
        using AT.prems(6) that ts by auto
      ultimately show ?thesis by (rule worlds_ok_frame)
    qed
    have this_one: "worlds_ok h' (rev (locals h chain) @ [transformation (h ! r)]) t"
      using w lc lr by (simp add: locals_Cons)
    have "worlds_ok h' (rev (locals h' chain)) (AT r ts)"
      using AT.prems(6) others this_one wr lr lc ts by auto
    moreover have "\<forall>x. x \<notin> set (preorder (AT r ts)) \<longrightarrow> h' ! x = h ! x"
      using f t by auto
    ultimately show ?thesis using r s by blast
  qed
qed


lemma worlds_ok_paths:
  "worlds_ok h (locals h pre) T =
     (\<forall>path \<in> set (paths_from pre T).
        world_transformation (h ! last path) =
          foldl (\<lambda>world transform. world * transform) 1 (locals h path))"
proof (induction T arbitrary: pre)
  case (AT a ts)
  have "locals h pre @ [transformation (h ! a)] = locals h (pre @ [a])"
    by (simp add: locals_def)
  with AT show ?case by (auto simp del: foldl_append)
qed

lemma worlds_ok_consistent: "worlds_ok h [] T = worlds_consistent h T"
  using worlds_ok_paths [of h "[]" T] by (simp add: worlds_consistent_def locals_def)

lemma setTransformations_keep:
  "is_tree h T \<Longrightarrow> worlds_ok h [] T \<Longrightarrow> \<forall>(a, m) \<in> set calls. a \<in> set (preorder T) \<Longrightarrow>
   \<exists>h'. setTransformations h calls = Inr h' \<and> length h' = length h \<and> is_tree h' T \<and> worlds_ok h' [] T"
proof (induction calls arbitrary: h)
  case Nil
  then show ?case by simp
next
  case (Cons call calls)
  obtain a m where call: "call = (a, m)" by (cases call)
  with Cons.prems have a: "a \<in> set (preorder T)" by simp
  from Cons.prems(1) have sh: "shape h None T" and d: "distinct (preorder T)"
    by (simp_all add: is_tree_def)
  from sh have "parent (h ! root_of T) = None" by (cases T) simp
  then have lk: "linked h (root_of T) []" by simp
  have b: "height T + length ([] :: addr list) \<le> length h"
    using is_tree_height [OF Cons.prems(1)] by simp
  have w: "worlds_ok h (rev (locals h [])) T" using Cons.prems(2) by (simp add: locals_def)
  from setTransformation_in_tree [OF sh lk d _ b w a, of m] obtain h1 where
    r: "setTransformation h a m = Inr h1" and
    sl: "same_links (with_local h a m) h1" and
    w1: "worlds_ok h1 (rev (locals h1 [])) T"
    by auto
  have len: "length h1 = length h" using same_links_with_local(1) [OF sl] .
  have "shape h1 None T"
    using sh same_links_with_local(2,3) [OF sl] len
    by (intro shape_same_parents [of h1 h]) simp_all
  with d have t1: "is_tree h1 T" by (simp add: is_tree_def)
  from w1 have "worlds_ok h1 [] T" by (simp add: locals_def)
  from Cons.IH [OF t1 this] Cons.prems(3) obtain h' where
    "setTransformations h1 calls = Inr h'" "length h' = length h1" "is_tree h' T" "worlds_ok h' [] T"
    by auto
  with r call len show ?case by simp
qed

subsection \<open>Building the scene\<close>

lemma root_of_layout: "root_of (layout n c) = n"
  by (cases c) simp

lemma preorder_layout:
  "preorder (layout n (c :: 'j node_config)) = [n ..< n + config_size c]"
  "concat (map preorder (layouts n (cs :: 'j node_config list))) =
     [n ..< n + sum_list (map config_size cs)]"
proof (induction n c and n cs rule: layout_layouts.induct)
  case (1 n nm ty tr content chs)
  have "[n ..< Suc (n + sum_list (map config_size chs))] =
      n # [Suc n ..< Suc n + sum_list (map config_size chs)]"
    by (simp add: upt_conv_Cons del: upt_Suc)
  with 1 show ?case by (simp del: upt_Suc)
next
  case (2 n)
  then show ?case by simp
next
  case (3 n c cs)
  have "[n ..< n + config_size c + sum_list (map config_size cs)] =
      [n ..< n + config_size c] @ [n + config_size c ..< n + config_size c + sum_list (map config_size cs)]"
    by (metis le_add1 upt_add_eq_append)
  with 3 show ?case by (simp add: add.assoc)
qed

lemma new_node_result:
  "new_node obj nm ty tr h =
     Inr (length h, h @ [\<lparr>name = nm, node_type = ty, transformation = tr,
                          world_transformation = 1 * tr, parent = None, children = [],
                          obj3d = obj\<rparr>])"
  by (simp add: new_node_def calculateWorldTransformation_def getTransformationHierarchy_def)

lemma shape_frame:
  "\<forall>x \<in> set (preorder T). g ! x = h ! x \<Longrightarrow> length h \<le> length g \<Longrightarrow> shape h p T \<Longrightarrow> shape g p T"
  by (induction T arbitrary: p) auto

lemma shape_reparent:
  assumes "shape h p T" and "distinct (preorder T)"
  shows "shape (h[root_of T := (h ! root_of T)\<lparr>parent := q\<rparr>]) q T"
proof (cases T)
  case (AT a ts)
  let ?g = "h[a := (h ! a)\<lparr>parent := q\<rparr>]"
  have "shape ?g (Some a) t" if "t \<in> set ts" for t
  proof -
    have "a \<notin> set (preorder t)" using assms(2) AT that by auto
    then have "\<forall>x \<in> set (preorder t). ?g ! x = h ! x"
      by (metis nth_list_update_neq)
    moreover have "shape h (Some a) t" using assms(1) AT that by simp
    ultimately show ?thesis by (intro shape_frame [of t ?g h]) simp_all
  qed
  with assms(1) AT show ?thesis by simp
qed

lemma setParent_addChild_nth:
  assumes "n < length h" and "c < length h" and "n \<noteq> c"
  shows "length (setParent (addChild h n c) c n) = length h"
    and "setParent (addChild h n c) c n ! n = (h ! n)\<lparr>children := children (h ! n) @ [c]\<rparr>"
    and "setParent (addChild h n c) c n ! c = (h ! c)\<lparr>parent := Some n\<rparr>"
    and "\<And>x. x \<noteq> n \<Longrightarrow> x \<noteq> c \<Longrightarrow> setParent (addChild h n c) c n ! x = h ! x"
  using assms by (simp_all add: setParent_def addChild_def)

lemma loadScenegraphNode_shape:
  "loadScenegraphNode j2t ms cfg h = Inr (Some a, h') \<Longrightarrow>
   a = length h \<and> length h' = length h + config_size cfg \<and>
   (\<forall>x < length h. h' ! x = h ! x) \<and> shape h' None (layout (length h) cfg) \<and>
   map (\<lambda>x. name (h' ! x)) [length h ..< length h'] = config_names cfg"
proof (induction cfg arbitrary: h a h')
  case (NodeConfig nm ty tr content chs)
  have loop:
    "length g' = length g + sum_list (map config_size cs) \<and>
     (\<forall>x < length g. x \<noteq> n \<longrightarrow> g' ! x = g ! x) \<and>
     g' ! n = (g ! n)\<lparr>children := children (g ! n) @ map root_of (layouts (length g) cs)\<rparr> \<and>
     (\<forall>t \<in> set (layouts (length g) cs). shape g' (Some n) t) \<and>
     map (\<lambda>x. name (g' ! x)) [length g ..< length g'] = concat (map config_names cs)"
    if "set cs \<subseteq> set chs" and "loadChildren j2t ms (Some n) cs g = Inr g'" and "n < length g"
    for cs g g' n
    using that
  proof (induction cs arbitrary: g)
    case Nil
    then show ?case by simp
  next
    case (Cons c cs)
    then have c: "c \<in> set chs" and cs: "set cs \<subseteq> set chs" by simp_all
    from Cons.prems(2) obtain a1 g1 where
      l1: "loadScenegraphNode j2t ms c g = Inr (Some a1, g1)" and
      l2: "loadChildren j2t ms (Some n) cs (setParent (addChild g1 n a1) a1 n) = Inr g'"
      by (auto split: sum.splits option.splits)
    let ?g2 = "setParent (addChild g1 n a1) a1 n"
    let ?t = "layout (length g) c"
    from NodeConfig.IH [OF c l1] have
      a1: "a1 = length g" and len1: "length g1 = length g + config_size c" and
      fr1: "\<forall>x < length g. g1 ! x = g ! x" and sh1: "shape g1 None ?t" and
      nm1: "map (\<lambda>x. name (g1 ! x)) [length g ..< length g1] = config_names c"
      by blast+
    have sz: "0 < config_size c" by (cases c) simp
    have n1: "n < length g1" and c1: "a1 < length g1" and ne: "n \<noteq> a1"
      using Cons.prems(3) a1 len1 sz by simp_all
    note sp = setParent_addChild_nth [OF n1 c1 ne]
    have n2: "n < length ?g2" using n1 sp(1) by simp
    from Cons.IH [OF cs l2 n2] have
      len': "length g' = length ?g2 + sum_list (map config_size cs)" and
      fr': "\<forall>x < length ?g2. x \<noteq> n \<longrightarrow> g' ! x = ?g2 ! x" and
      kid': "g' ! n = (?g2 ! n)\<lparr>children := children (?g2 ! n) @ map root_of (layouts (length ?g2) cs)\<rparr>" and
      sh': "\<forall>t \<in> set (layouts (length ?g2) cs). shape g' (Some n) t" and
      nm': "map (\<lambda>x. name (g' ! x)) [length ?g2 ..< length g'] = concat (map config_names cs)"
      by blast+
    have l2eq: "length ?g2 = length g + config_size c" using sp(1) len1 by simp
    have pre: "preorder ?t = [length g ..< length g + config_size c]" by (rule preorder_layout)
    have A: "length g' = length g + sum_list (map config_size (c # cs))"
      using len' l2eq by simp
    have B: "\<forall>x < length g. x \<noteq> n \<longrightarrow> g' ! x = g ! x"
    proof (intro allI impI)
      fix x
      assume x: "x < length g" and xn: "x \<noteq> n"
      then have "g' ! x = ?g2 ! x" using fr' l2eq by simp
      also have "\<dots> = g1 ! x" using x xn a1 by (intro sp(4)) simp_all
      also have "\<dots> = g ! x" using fr1 x by simp
      finally show "g' ! x = g ! x" .
    qed
    have gn: "g1 ! n = g ! n" using fr1 Cons.prems(3) by simp
    have C: "g' ! n = (g ! n)\<lparr>children := children (g ! n) @ map root_of (layouts (length g) (c # cs))\<rparr>"
      using kid' sp(2) gn l2eq a1 by (simp add: root_of_layout)
    have sh2: "shape ?g2 (Some n) ?t"
    proof -
      have d: "distinct (preorder ?t)" by (simp add: pre)
      have r: "root_of ?t = a1" using a1 by (simp add: root_of_layout)
      let ?g1' = "g1[a1 := (g1 ! a1)\<lparr>parent := Some n\<rparr>]"
      have s: "shape ?g1' (Some n) ?t" using shape_reparent [OF sh1 d, of "Some n"] r by simp
      have "\<forall>x \<in> set (preorder ?t). ?g2 ! x = ?g1' ! x"
      proof
        fix x
        assume "x \<in> set (preorder ?t)"
        then have xr: "length g \<le> x" using pre by simp
        then have xn: "x \<noteq> n" using Cons.prems(3) by simp
        show "?g2 ! x = ?g1' ! x"
        proof (cases "x = a1")
          case True
          then show ?thesis using sp(3) c1 by simp
        next
          case False
          then show ?thesis using sp(4) [OF xn False] by simp
        qed
      qed
      moreover have "length ?g1' \<le> length ?g2" using sp(1) by simp
      ultimately show ?thesis using s by (rule shape_frame)
    qed
    have sh3: "shape g' (Some n) ?t"
    proof -
      have "\<forall>x \<in> set (preorder ?t). g' ! x = ?g2 ! x"
      proof
        fix x
        assume "x \<in> set (preorder ?t)"
        then have "length g \<le> x" and "x < length ?g2" using pre l2eq by simp_all
        then show "g' ! x = ?g2 ! x" using fr' Cons.prems(3) by simp
      qed
      moreover have "length ?g2 \<le> length g'" using len' by simp
      ultimately show ?thesis using sh2 by (rule shape_frame)
    qed
    have D: "\<forall>t \<in> set (layouts (length g) (c # cs)). shape g' (Some n) t"
      using sh3 sh' l2eq by simp
    have names1: "map (\<lambda>x. name (g' ! x)) [length g ..< length ?g2] = config_names c"
    proof -
      have "name (g' ! x) = name (g1 ! x)" if "x \<in> set [length g ..< length ?g2]" for x
      proof -
        from that have x1: "length g \<le> x" and x2: "x < length ?g2" by simp_all
        then have xn: "x \<noteq> n" using Cons.prems(3) by simp
        have "g' ! x = ?g2 ! x" using fr' x2 xn by simp
        moreover have "name (?g2 ! x) = name (g1 ! x)"
        proof (cases "x = a1")
          case True
          then show ?thesis using sp(3) by simp
        next
          case False
          then show ?thesis using sp(4) [OF xn False] by simp
        qed
        ultimately show ?thesis by simp
      qed
      then have "map (\<lambda>x. name (g' ! x)) [length g ..< length ?g2] =
          map (\<lambda>x. name (g1 ! x)) [length g ..< length ?g2]"
        by (intro map_cong) simp_all
      with nm1 sp(1) show ?thesis by simp
    qed
    have "[length g ..< length g'] = [length g ..< length ?g2] @ [length ?g2 ..< length g']"
      using len' l2eq by (metis le_add1 upt_add_eq_append)
    then have E: "map (\<lambda>x. name (g' ! x)) [length g ..< length g'] =
        concat (map config_names (c # cs))"
      using names1 nm' by simp
    from A B C D E show ?case by blast
  qed
  let ?N = "\<lambda>obj. \<lparr>name = nm, node_type = ty, transformation = j2t tr,
      world_transformation = 1 * j2t tr, parent = None, children = [], obj3d = obj\<rparr>"
  from NodeConfig.prems obtain obj where
    a: "a = length h" and
    lc: "loadChildren j2t ms (Some (length h)) chs (h @ [?N obj]) = Inr h'"
    by (auto simp: new_node_result split: if_splits sum.splits)
  let ?h1 = "h @ [?N obj]"
  have "length h < length ?h1" by simp
  from loop [OF subset_refl lc this] have
    len: "length h' = length ?h1 + sum_list (map config_size chs)" and
    fr: "\<forall>x < length ?h1. x \<noteq> length h \<longrightarrow> h' ! x = ?h1 ! x" and
    kid: "h' ! length h = (?h1 ! length h)\<lparr>children :=
        children (?h1 ! length h) @ map root_of (layouts (length ?h1) chs)\<rparr>" and
    sh: "\<forall>t \<in> set (layouts (length ?h1) chs). shape h' (Some (length h)) t" and
    nms: "map (\<lambda>x. name (h' ! x)) [length ?h1 ..< length h'] = concat (map config_names chs)"
    by blast+
  have A: "length h' = length h + config_size (NodeConfig nm ty tr content chs)"
    using len by simp
  have B: "\<forall>x < length h. h' ! x = h ! x"
    using fr by (simp add: nth_append)
  have C: "shape h' None (layout (length h) (NodeConfig nm ty tr content chs))"
    using kid sh len by simp
  have "[length h ..< length h'] = length h # [length ?h1 ..< length h']"
    using len by (simp add: upt_conv_Cons del: upt_Suc)
  then have D: "map (\<lambda>x. name (h' ! x)) [length h ..< length h'] =
      config_names (NodeConfig nm ty tr content chs)"
    using nms kid by simp
  from a A B C D show ?case by blast
qed

lemma Scene_builds_tree:
  assumes "Scene fs j2t config = Inr sc"
  shows "scenegraph sc = 0 \<and>
     is_tree (heap sc) (layout 0 (cfg_scenegraph config)) \<and>
     preorder (layout 0 (cfg_scenegraph config)) = [0 ..< length (heap sc)] \<and>
     map name (heap sc) = config_names (cfg_scenegraph config) \<and>
     worlds_ok (heap sc) [] (layout 0 (cfg_scenegraph config)) \<and>
     renderables_ok (heap sc) (layout 0 (cfg_scenegraph config))"
proof -
  let ?T = "layout 0 (cfg_scenegraph config)"
  from assms obtain ms r h h' where
    l: "loadScenegraphNode j2t ms (cfg_scenegraph config) [] = Inr (Some r, h)" and
    s: "setTransformation h r (transformation (h ! r)) = Inr h'" and
    sc: "sc = \<lparr>scene_config = config, models = ms, heap = h', scenegraph = r\<rparr>"
    by (auto simp: Scene_def split: sum.splits option.splits)
  from loadScenegraphNode_shape [OF l] have
    r: "r = 0" and len: "length h = config_size (cfg_scenegraph config)" and
    sh: "shape h None ?T" and nm: "map (\<lambda>x. name (h ! x)) [0 ..< length h] = config_names (cfg_scenegraph config)"
    by auto
  have pre: "preorder ?T = [0 ..< length h]" using preorder_layout(1) [of 0] len by simp
  then have d: "distinct (preorder ?T)" by simp
  have root: "root_of ?T = 0" by (rule root_of_layout)
  from sh root have "parent (h ! 0) = None" by (cases ?T) simp
  then have lk: "linked h (root_of ?T) []" using root by simp
  have "height ?T \<le> length (preorder ?T)" by (rule height_le_length)
  then have b: "height ?T + length ([] :: addr list) \<le> length h" using pre by simp
  from setTransformation_subtree [OF sh lk d b, of "transformation (h ! 0)"] s r root
  obtain
    sl: "same_links (with_local h 0 (transformation (h ! 0))) h'" and
    w: "worlds_ok h' (rev (locals h' [])) ?T" and
    o: "renderables_ok h' ?T"
    by auto
  have "with_local h 0 (transformation (h ! 0)) = h"
    by (simp add: with_local_def update_same_transformation)
  with sl have sl': "same_links h h'" by simp
  then have sh': "shape h' None ?T" using sh by (rule shape_same_links)
  have len': "length h' = length h" using sl' by (simp add: same_links_def)
  have "map name h' = map (\<lambda>x. name (h' ! x)) [0 ..< length h']"
    by (intro nth_equalityI) simp_all
  also have "\<dots> = map (\<lambda>x. name (h ! x)) [0 ..< length h]"
    using sl' by (simp add: same_links_def)
  finally have nm': "map name h' = config_names (cfg_scenegraph config)" using nm by simp
  from sh' d pre len' nm' w o show ?thesis
    by (simp add: sc r is_tree_def locals_def)
qed

subsection \<open>The claims about the scene graph\<close>

lemma instantiateModel_undeclared:
  "negated_key nm \<notin> dom ms \<Longrightarrow> ms (property_key nm) = None \<Longrightarrow>
   instantiateModel ms nm = (Inl TypeError :: error + 'm :: {one, times} Object3D)"
  by (simp add: instantiateModel_def)

text \<open>
  Claim C1. The claim does not hold of the code: the test \<open>!name in this.models\<close> asks
  whether the table has a model called \<open>false\<close>, not whether it has \<open>name\<close>. A scene whose
  model node names a model that was never declared does fail before any node is created,
  but with the TypeError of the destructuring and not with \<open>Unable to find model\<close>.
\<close>

theorem Scene_undeclared_model_TypeError:
  "Scene (\<lambda>path. []) (\<lambda>j. j)
     \<lparr>cfg_models = [],
      cfg_scenegraph = NodeConfig ''root'' ''model'' (1 :: int) (Some ''cube'') []\<rparr> =
   Inl TypeError"
  by (simp add: Scene_def loadModels_def instantiateModel_def negated_key_def property_key_def)

lemma example_models:
  "loadModels example_files [(''cube'', ''cube.obj'')] =
     Inr [''cube'' \<mapsto> ([], [Fin 0, Fin 1, Fin 2])]"
proof -
  have "load ''f 1 2 3'' = Inr ([], [Fin 0, Fin 1, Fin 2])"
    by (simp add: load_eval number_eval)
  then show ?thesis by (simp add: loadModels_def example_files_def)
qed

lemma example_scene_loads: "\<not> isl (Scene example_files (\<lambda>j. j) example_config)"
  by (simp add: Scene_def example_models example_config_def new_node_result
      instantiateModel_def negated_key_def property_key_def setParent_def addChild_def
      setTransformation_def calculateWorldTransformation_def getTransformationHierarchy_def
      numeral_eq_Suc Let_def)

lemma example_layout:
  "layout 0 (cfg_scenegraph example_config) = AT 0 [AT 1 [AT 2 []], AT 3 []]"
  by (simp add: example_config_def)

lemma example_names:
  "config_names (cfg_scenegraph example_config) = [''root'', ''arm'', ''hand'', ''leg'']"
  by (simp add: example_config_def)

lemma example_scene:
  obtains sc where "Scene example_files (\<lambda>j. j) example_config = Inr sc"
    and "is_tree (heap sc) (AT 0 [AT 1 [AT 2 []], AT 3 []])"
    and "scenegraph sc = 0" and "length (heap sc) = 4"
    and "map name (heap sc) = [''root'', ''arm'', ''hand'', ''leg'']"
proof -
  from example_scene_loads obtain sc where
    sc: "Scene example_files (\<lambda>j. j) example_config = Inr sc"
    by (cases "Scene example_files (\<lambda>j. j) example_config") auto
  note b = Scene_builds_tree [OF sc]
  from b have r: "scenegraph sc = 0" by blast
  from b have t: "is_tree (heap sc) (layout 0 (cfg_scenegraph example_config))" by blast
  from b have p: "preorder (layout 0 (cfg_scenegraph example_config)) = [0 ..< length (heap sc)]"
    by blast
  from b have n: "map name (heap sc) = config_names (cfg_scenegraph example_config)" by blast
  have "length (preorder (layout 0 (cfg_scenegraph example_config))) = length [0 ..< length (heap sc)]"
    by (simp only: p)
  then have len: "length (heap sc) = 4" by (simp add: example_layout)
  from sc t r len n show ?thesis
    by (intro that [of sc]) (simp_all only: example_layout example_names)
qed

text \<open>
  Claim C2. In the scene that \<open>Scene\<close> builds, and after any further calls of
  \<open>setTransformation\<close> on nodes of the scene with any matrices, every call returns and the
  cached world transformation of every node is the product of the local transformations
  on the path from the root to the node, root first. The nodes of the scene are the
  addresses of the heap, and they still form the tree of the configuration.
\<close>

theorem Scene_keeps_worlds_consistent:
  assumes "Scene fs j2t config = Inr sc" and "\<forall>(a, m) \<in> set calls. a < length (heap sc)"
  shows "\<exists>h'. setTransformations (heap sc) calls = Inr h' \<and> length h' = length (heap sc) \<and>
      is_tree h' (layout 0 (cfg_scenegraph config)) \<and>
      preorder (layout 0 (cfg_scenegraph config)) = [0 ..< length h'] \<and>
      worlds_consistent h' (layout 0 (cfg_scenegraph config))"
proof -
  let ?T = "layout 0 (cfg_scenegraph config)"
  from Scene_builds_tree [OF assms(1)] have
    t: "is_tree (heap sc) ?T" and p: "preorder ?T = [0 ..< length (heap sc)]" and
    w: "worlds_ok (heap sc) [] ?T"
    by blast+
  have "\<forall>(a, m) \<in> set calls. a \<in> set (preorder ?T)"
    using assms(2) p by auto
  from setTransformations_keep [OF t w this] obtain h' where
    "setTransformations (heap sc) calls = Inr h'" "length h' = length (heap sc)"
    "is_tree h' ?T" "worlds_ok h' [] ?T"
    by blast
  with p show ?thesis by (auto simp: worlds_ok_consistent)
qed

theorem Scene_keeps_worlds_consistent_witness:
  "\<exists>sc h'. Scene example_files (\<lambda>j. j) example_config = Inr sc \<and> length (heap sc) = 4 \<and>
     setTransformations (heap sc) [(1, 11), (0, 13), (2, 17)] = Inr h' \<and>
     worlds_consistent h' (AT 0 [AT 1 [AT 2 []], AT 3 []])"
proof -
  from example_scene obtain sc where
    sc: "Scene example_files (\<lambda>j. j) example_config = Inr sc" and len: "length (heap sc) = 4"
    by blast
  from len have calls: "\<forall>(a, m) \<in> set [(1, 11), (0, 13), (2, 17 :: int)]. a < length (heap sc)"
    by simp
  from Scene_keeps_worlds_consistent [OF sc calls] obtain h' where
    st: "setTransformations (heap sc) [(1, 11), (0, 13), (2, 17)] = Inr h'" and
    w: "worlds_consistent h' (layout 0 (cfg_scenegraph example_config))"
    by blast
  from w have "worlds_consistent h' (AT 0 [AT 1 [AT 2 []], AT 3 []])"
    by (simp only: example_layout)
  with sc len st show ?thesis
    by (intro exI [of _ sc] exI [of _ h'] conjI)
qed



text \<open>
  Claim C7. On a tree, \<open>getNodes\<close> returns the nodes in depth-first pre-order: the node
  itself, then the subtrees of its children in the order of the children array. The list
  has as many entries as the tree has nodes and no node twice, a parent comes before each
  of its children, and the children of a node come in the order of its children array. In
  the scene built from a configuration these are the nodes of the configuration in the
  order of their declaration.
\<close>

theorem getNodes_preorder:
  "(is_tree (heap sc) T \<and> scenegraph sc = root_of T \<longrightarrow>
      Scene_getNodes sc = Inr (preorder T) \<and>
      length (preorder T) = node_count T \<and> distinct (preorder T) \<and>
      (\<forall>a \<in> set (preorder T). \<forall>c \<in> set (children (heap sc ! a)). before (preorder T) a c) \<and>
      (\<forall>a \<in> set (preorder T). \<forall>j < length (children (heap sc ! a)). \<forall>i < j.
         before (preorder T) (children (heap sc ! a) ! i) (children (heap sc ! a) ! j))) \<and>
   (Scene fs j2t config = Inr sc \<longrightarrow>
      Scene_getNodes sc = Inr [0 ..< config_size (cfg_scenegraph config)] \<and>
      map (\<lambda>a. name (heap sc ! a)) [0 ..< config_size (cfg_scenegraph config)] =
        config_names (cfg_scenegraph config))"
proof -
  have general: "Scene_getNodes sc = Inr (preorder T) \<and>
      length (preorder T) = node_count T \<and> distinct (preorder T) \<and>
      (\<forall>a \<in> set (preorder T). \<forall>c \<in> set (children (heap sc ! a)). before (preorder T) a c) \<and>
      (\<forall>a \<in> set (preorder T). \<forall>j < length (children (heap sc ! a)). \<forall>i < j.
         before (preorder T) (children (heap sc ! a) ! i) (children (heap sc ! a) ! j))"
    if t: "is_tree (heap sc) T" and r: "scenegraph sc = root_of T" for T
  proof -
    from t have sh: "shape (heap sc) None T" and d: "distinct (preorder T)"
      by (simp_all add: is_tree_def)
    have "Scene_getNodes sc = Inr (preorder T)"
      using getNodes_rec_shape [OF sh is_tree_height [OF t], of "[]"] r
      by (simp add: Scene_getNodes_def getNodes_def)
    moreover note length_preorder [of T] d
    moreover have "\<forall>a \<in> set (preorder T). \<forall>c \<in> set (children (heap sc ! a)). before (preorder T) a c"
      using parent_before_child [OF sh d] by blast
    moreover have "\<forall>a \<in> set (preorder T). \<forall>j < length (children (heap sc ! a)). \<forall>i < j.
        before (preorder T) (children (heap sc ! a) ! i) (children (heap sc ! a) ! j)"
      using children_in_order [OF sh d] by blast
    ultimately show ?thesis by blast
  qed
  have built: "Scene_getNodes sc = Inr [0 ..< config_size (cfg_scenegraph config)] \<and>
      map (\<lambda>a. name (heap sc ! a)) [0 ..< config_size (cfg_scenegraph config)] =
        config_names (cfg_scenegraph config)"
    if sc: "Scene fs j2t config = Inr sc"
  proof -
    let ?T = "layout 0 (cfg_scenegraph config)"
    from Scene_builds_tree [OF sc] have
      r: "scenegraph sc = 0" and t: "is_tree (heap sc) ?T" and
      p: "preorder ?T = [0 ..< length (heap sc)]" and
      n: "map name (heap sc) = config_names (cfg_scenegraph config)"
      by blast+
    have q: "preorder ?T = [0 ..< config_size (cfg_scenegraph config)]"
      using preorder_layout(1) [of 0 "cfg_scenegraph config"] by simp
    have "length (preorder ?T) = length [0 ..< length (heap sc)]" by (simp only: p)
    then have len: "length (heap sc) = config_size (cfg_scenegraph config)"
      by (simp add: q)
    have "map (\<lambda>a. name (heap sc ! a)) [0 ..< length (heap sc)] = map name (heap sc)"
      by (intro nth_equalityI) simp_all
    then have nm: "map (\<lambda>a. name (heap sc ! a)) [0 ..< config_size (cfg_scenegraph config)] =
        config_names (cfg_scenegraph config)"
      using n len by simp
    have "scenegraph sc = root_of ?T" using r by (simp add: root_of_layout)
    from general [OF t this] have "Scene_getNodes sc = Inr (preorder ?T)" by blast
    with q nm show ?thesis by simp
  qed
  from general built show ?thesis by blast
qed

theorem getNodes_preorder_witness:
  "\<exists>sc. Scene example_files (\<lambda>j. j) example_config = Inr sc \<and>
     is_tree (heap sc) (AT 0 [AT 1 [AT 2 []], AT 3 []]) \<and>
     Scene_getNodes sc = Inr [0, 1, 2, 3] \<and> node_count (AT 0 [AT 1 [AT 2 []], AT 3 []]) = 4 \<and>
     map (\<lambda>a. name (heap sc ! a)) [0, 1, 2, 3] = [''root'', ''arm'', ''hand'', ''leg'']"
proof -
  let ?T = "AT 0 [AT 1 [AT 2 []], AT 3 []]"
  from example_scene obtain sc where
    sc: "Scene example_files (\<lambda>j. j) example_config = Inr sc" and
    t: "is_tree (heap sc) ?T" and r: "scenegraph sc = 0"
    by blast
  have r': "scenegraph sc = root_of ?T" using r by simp
  have up: "[0 ..< config_size (cfg_scenegraph example_config)] = [0, 1, 2, 3]"
    by (simp add: example_config_def upt_rec)
  have nc: "node_count ?T = 4" by simp
  from getNodes_preorder [of sc ?T example_files "\<lambda>j. j" example_config] sc t r'
  have "Scene_getNodes sc = Inr [0 ..< config_size (cfg_scenegraph example_config)]"
    and "map (\<lambda>a. name (heap sc ! a)) [0 ..< config_size (cfg_scenegraph example_config)] =
      config_names (cfg_scenegraph example_config)"
    by blast+
  then have "Scene_getNodes sc = Inr [0, 1, 2, 3]"
    and "map (\<lambda>a. name (heap sc ! a)) [0, 1, 2, 3] = [''root'', ''arm'', ''hand'', ''leg'']"
    by (simp_all only: up example_names)
  with sc t nc show ?thesis by (intro exI [of _ sc] conjI)
qed

text \<open>
  Claim C8. On a tree, \<open>getNode\<close> of the scene returns the first node in depth-first
  pre-order that carries the name, when some node does; when none does, it throws
  \<open>Node "name" not found in scenegraph\<close>. It is a function of the scene alone and returns
  no new scene: the scene is as it was.
\<close>

theorem getNode_first_match:
  assumes "is_tree (heap sc) T" and "scenegraph sc = root_of T"
  shows "((\<exists>a \<in> set (preorder T). name (heap sc ! a) = nm) \<longrightarrow>
       (\<exists>i < length (preorder T). Scene_getNode sc nm = Inr (preorder T ! i) \<and>
          name (heap sc ! (preorder T ! i)) = nm \<and>
          (\<forall>j < i. name (heap sc ! (preorder T ! j)) \<noteq> nm))) \<and>
     ((\<forall>a \<in> set (preorder T). name (heap sc ! a) \<noteq> nm) \<longrightarrow>
       Scene_getNode sc nm =
         Inl (Thrown (''Node '' @ [CHR 0x22] @ nm @ [CHR 0x22] @ '' not found in scenegraph'')))"
proof -
  let ?P = "\<lambda>x. name (heap sc ! x) = nm"
  from assms(1) have sh: "shape (heap sc) None T" by (simp add: is_tree_def)
  have g: "getNode (heap sc) (scenegraph sc) nm = Inr (find ?P (preorder T))"
    using getNode_rec_shape [OF sh is_tree_height [OF assms(1)], of nm] assms(2)
    by (simp add: getNode_def)
  have found: "\<exists>i < length (preorder T). Scene_getNode sc nm = Inr (preorder T ! i) \<and>
      ?P (preorder T ! i) \<and> (\<forall>j < i. \<not> ?P (preorder T ! j))"
    if "\<exists>a \<in> set (preorder T). ?P a"
  proof -
    from that obtain a where "find ?P (preorder T) = Some a"
      by (cases "find ?P (preorder T)") (auto simp: find_None_iff)
    moreover from this obtain i where "i < length (preorder T)" "?P (preorder T ! i)"
      "a = preorder T ! i" "\<forall>j < i. \<not> ?P (preorder T ! j)"
      by (auto simp: find_Some_iff)
    ultimately show ?thesis using g by (auto simp: Scene_getNode_def)
  qed
  have missing: "Scene_getNode sc nm =
      Inl (Thrown (''Node '' @ [CHR 0x22] @ nm @ [CHR 0x22] @ '' not found in scenegraph''))"
    if "\<forall>a \<in> set (preorder T). \<not> ?P a"
  proof -
    from that have "find ?P (preorder T) = None" by (auto simp: find_None_iff)
    with g show ?thesis by (simp add: Scene_getNode_def NodeNotFound_def quoted_def)
  qed
  from found missing show ?thesis by blast
qed

theorem getNode_first_match_witness:
  "\<exists>sc a. Scene example_files (\<lambda>j. j) example_config = Inr sc \<and>
     Scene_getNode sc ''hand'' = Inr a \<and> name (heap sc ! a) = ''hand'' \<and>
     Scene_getNode sc ''wing'' =
       Inl (Thrown (''Node '' @ [CHR 0x22] @ ''wing'' @ [CHR 0x22] @ '' not found in scenegraph''))"
proof -
  let ?T = "AT 0 [AT 1 [AT 2 []], AT 3 []]"
  from example_scene obtain sc where
    sc: "Scene example_files (\<lambda>j. j) example_config = Inr sc" and
    t: "is_tree (heap sc) ?T" and r0: "scenegraph sc = 0" and len: "length (heap sc) = 4" and
    n: "map name (heap sc) = [''root'', ''arm'', ''hand'', ''leg'']"
    by blast
  have r: "scenegraph sc = root_of ?T" using r0 by simp
  have nm: "name (heap sc ! k) = [''root'', ''arm'', ''hand'', ''leg''] ! k" if "k < 4" for k
  proof -
    from that len have "map name (heap sc) ! k = name (heap sc ! k)" by simp
    then show ?thesis by (simp only: n)
  qed
  have hand: "\<exists>a \<in> set (preorder ?T). name (heap sc ! a) = ''hand''"
    using nm [of 2] by simp
  have wing: "\<forall>a \<in> set (preorder ?T). name (heap sc ! a) \<noteq> ''wing''"
    using nm [of 0] nm [of 1] nm [of 2] nm [of 3] by simp
  note found = mp [OF conjunct1 [OF getNode_first_match [OF t r, of "''hand''"]] hand]
  then obtain i where
    f1: "Scene_getNode sc ''hand'' = Inr (preorder ?T ! i)" and
    f2: "name (heap sc ! (preorder ?T ! i)) = ''hand''"
    by (elim exE conjE)
  note f3 = mp [OF conjunct2 [OF getNode_first_match [OF t r, of "''wing''"]] wing]
  from sc f1 f2 f3 show ?thesis
    by (intro exI [of _ sc] exI [of _ "preorder ?T ! i"] conjI)
qed


end
